theory Spec2Isabelle
  imports Main "HOL-Library.Char_ord" "HOL-Library.List_Lexorder" "HOL-Library.Product_Lexorder"
begin

section \<open>Python strings\<close>

text \<open>
  A Python \<^verbatim>\<open>str\<close> is modelled as a \<^typ>\<open>string\<close>: a list of characters with code
  points below 256. \<^verbatim>\<open>s.find(c)\<close> and \<^verbatim>\<open>s.rfind(c)\<close> return \<^verbatim>\<open>-1\<close> when
  the character is absent; here that is \<^term>\<open>None\<close>.
\<close>

fun find_char :: "char \<Rightarrow> string \<Rightarrow> nat option" where
  "find_char c [] = None"
| "find_char c (x # xs) =
     (if x = c then Some 0
      else (case find_char c xs of None \<Rightarrow> None | Some i \<Rightarrow> Some (Suc i)))"

definition rfind_char :: "char \<Rightarrow> string \<Rightarrow> nat option" where
  "rfind_char c s =
     (case find_char c (rev s) of
        None \<Rightarrow> None
      | Some i \<Rightarrow> Some (length s - 1 - i))"

text \<open>\<^verbatim>\<open>xs[a:b]\<close> for non-negative \<^verbatim>\<open>a\<close> and \<^verbatim>\<open>b\<close>: empty when
  \<^verbatim>\<open>b <= a\<close>, cut at the end of the list.\<close>

definition slice :: "'a list \<Rightarrow> nat \<Rightarrow> nat \<Rightarrow> 'a list" where
  "slice xs a b = take (b - a) (drop a xs)"

definition startswith :: "string \<Rightarrow> string \<Rightarrow> bool" where
  "startswith s p = (take (length p) s = p)"

definition endswith :: "string \<Rightarrow> string \<Rightarrow> bool" where
  "endswith s p = (length p \<le> length s \<and> drop (length s - length p) s = p)"

section \<open>JSON values and the metadata-block codec (core.py)\<close>

text \<open>
  What \<^verbatim>\<open>json.loads\<close> returns: \<^verbatim>\<open>None\<close>, booleans, integers, strings, lists and
  dicts (a dict as an association list in key order; lookups take the first binding).
  Floating-point numbers are left out of the model.
\<close>

datatype json =
    JNull
  | JBool bool
  | JInt int
  | JStr string
  | JArr "json list"
  | JObj "(string \<times> json) list"

text \<open>The \<^verbatim>\<open>ValueError\<close>s and \<^verbatim>\<open>ValidationError\<close>s of the codec, one constructor per
  raise site.\<close>

datatype value_error =
    MissingJson
  | TooLarge
  | InvalidJson
  | TooDeep
  | SchemaInvalid
  | UnsupportedVersion
  | InvalidLinesArray
  | InvalidLineRange
  | BeyondFileLength

definition MAX_AGTAG_SIZE :: nat where
  "MAX_AGTAG_SIZE = 100000"

definition MAX_JSON_DEPTH :: nat where
  "MAX_JSON_DEPTH = 10"

text \<open>
  \<^verbatim>\<open>check_json_depth(obj, max_depth, current_depth)\<close>: the test on \<^verbatim>\<open>current_depth\<close>
  comes first, for every value; then the values of a dict and the items of a list are
  visited one level deeper, in order, and the first raise ends the visit.
\<close>

fun check_json_depth :: "json \<Rightarrow> nat \<Rightarrow> nat \<Rightarrow> value_error + unit"
  and check_depth_values :: "(string \<times> json) list \<Rightarrow> nat \<Rightarrow> nat \<Rightarrow> value_error + unit"
  and check_depth_items :: "json list \<Rightarrow> nat \<Rightarrow> nat \<Rightarrow> value_error + unit"
where
  "check_json_depth obj max_depth current_depth =
     (if current_depth > max_depth then Inl TooDeep
      else (case obj of
              JObj kvs \<Rightarrow> check_depth_values kvs max_depth (current_depth + 1)
            | JArr xs \<Rightarrow> check_depth_items xs max_depth (current_depth + 1)
            | _ \<Rightarrow> Inr ()))"
| "check_depth_values [] max_depth d = Inr ()"
| "check_depth_values (kv # kvs) max_depth d =
     (case check_json_depth (snd kv) max_depth d of
        Inl e \<Rightarrow> Inl e
      | Inr _ \<Rightarrow> check_depth_values kvs max_depth d)"
| "check_depth_items [] max_depth d = Inr ()"
| "check_depth_items (x # xs) max_depth d =
     (case check_json_depth x max_depth d of
        Inl e \<Rightarrow> Inl e
      | Inr _ \<Rightarrow> check_depth_items xs max_depth d)"

text \<open>Python truthiness and \<^verbatim>\<open>dict.get\<close> on parsed JSON.\<close>

fun truthy :: "json \<Rightarrow> bool" where
  "truthy JNull = False"
| "truthy (JBool b) = b"
| "truthy (JInt i) = (i \<noteq> 0)"
| "truthy (JStr s) = (s \<noteq> [])"
| "truthy (JArr xs) = (xs \<noteq> [])"
| "truthy (JObj kvs) = (kvs \<noteq> [])"

fun json_get :: "json \<Rightarrow> string \<Rightarrow> json option" where
  "json_get (JObj kvs) k = map_of kvs k"
| "json_get _ k = None"

fun is_string :: "json \<Rightarrow> bool" where
  "is_string (JStr s) = True"
| "is_string _ = False"

fun is_object :: "json \<Rightarrow> bool" where
  "is_object (JObj kvs) = True"
| "is_object _ = False"

fun is_array :: "json \<Rightarrow> bool" where
  "is_array (JArr xs) = True"
| "is_array _ = False"

fun is_integer_or_null :: "json \<Rightarrow> bool" where
  "is_integer_or_null (JInt i) = True"
| "is_integer_or_null JNull = True"
| "is_integer_or_null _ = False"

fun is_string_or_null :: "json \<Rightarrow> bool" where
  "is_string_or_null (JStr s) = True"
| "is_string_or_null JNull = True"
| "is_string_or_null _ = False"

text \<open>
  \<^verbatim>\<open>AGTAG_SCHEMA\<close>, read as JSON Schema: a property that is present must have the
  listed type; the required keys must be present; other keys are allowed.
\<close>

definition prop_ok :: "(string \<times> json) list \<Rightarrow> string \<Rightarrow> (json \<Rightarrow> bool) \<Rightarrow> bool" where
  "prop_ok kvs k P = (case map_of kvs k of None \<Rightarrow> True | Some v \<Rightarrow> P v)"

definition has_key :: "(string \<times> json) list \<Rightarrow> string \<Rightarrow> bool" where
  "has_key kvs k = (map_of kvs k \<noteq> None)"

fun lines_schema_ok :: "json \<Rightarrow> bool" where
  "lines_schema_ok (JArr xs) =
     (list_all is_integer_or_null xs \<and> 2 \<le> length xs \<and> length xs \<le> 2)"
| "lines_schema_ok _ = False"

fun symbol_schema_ok :: "json \<Rightarrow> bool" where
  "symbol_schema_ok (JObj kvs) =
     (has_key kvs ''name'' \<and> has_key kvs ''kind''
      \<and> prop_ok kvs ''path'' is_string
      \<and> prop_ok kvs ''name'' is_string
      \<and> prop_ok kvs ''kind'' is_string
      \<and> prop_ok kvs ''qualified_name'' is_string
      \<and> prop_ok kvs ''signature'' is_string
      \<and> prop_ok kvs ''summary_l0'' is_string
      \<and> prop_ok kvs ''contract_l1'' is_string
      \<and> prop_ok kvs ''pseudocode_l2'' is_string_or_null
      \<and> prop_ok kvs ''ast_excerpt_l3'' is_object
      \<and> prop_ok kvs ''ast_l3'' is_object
      \<and> prop_ok kvs ''lines'' lines_schema_ok)"
| "symbol_schema_ok _ = False"

fun symbols_schema_ok :: "json \<Rightarrow> bool" where
  "symbols_schema_ok (JArr xs) = list_all symbol_schema_ok xs"
| "symbols_schema_ok _ = False"

fun agtag_schema_ok :: "json \<Rightarrow> bool" where
  "agtag_schema_ok (JObj kvs) =
     (has_key kvs ''version'' \<and> has_key kvs ''symbols''
      \<and> prop_ok kvs ''version'' (\<lambda>v. is_string v \<and> v = JStr ''v1'')
      \<and> prop_ok kvs ''symbols'' symbols_schema_ok
      \<and> prop_ok kvs ''docs'' is_array
      \<and> prop_ok kvs ''tests'' is_array)"
| "agtag_schema_ok _ = False"

text \<open>\<^verbatim>\<open>agtag.get("symbols", [])\<close>, as the list it iterates over.\<close>

definition symbols_of :: "json \<Rightarrow> json list" where
  "symbols_of agtag =
     (case json_get agtag ''symbols'' of Some (JArr xs) \<Rightarrow> xs | _ \<Rightarrow> [])"

text \<open>\<^verbatim>\<open>lines = symbol.get("lines") or []\<close>, then
  \<^verbatim>\<open>if lines and len(lines) != 2: raise\<close>.\<close>

definition lines_shape_bad :: "json \<Rightarrow> bool" where
  "lines_shape_bad symbol =
     (case json_get symbol ''lines'' of
        Some (JArr xs) \<Rightarrow> xs \<noteq> [] \<and> length xs \<noteq> 2
      | _ \<Rightarrow> False)"

definition validate_agtag_data :: "json \<Rightarrow> string \<Rightarrow> value_error + unit" where
  "validate_agtag_data agtag repo_path =
     (if \<not> agtag_schema_ok agtag then Inl SchemaInvalid
      else if json_get agtag ''version'' \<noteq> Some (JStr ''v1'') then Inl UnsupportedVersion
      else if list_ex lines_shape_bad (symbols_of agtag) then Inl InvalidLinesArray
      else Inr ())"

text \<open>
  \<^verbatim>\<open>parse_agtag_block(block, repo_path)\<close>. \<^verbatim>\<open>json.loads\<close> is the parameter
  \<open>loads\<close> (\<^term>\<open>None\<close> for \<^verbatim>\<open>JSONDecodeError\<close>). The order of the checks is the
  source's: braces, size, parse, depth, schema.
\<close>

definition parse_agtag_block ::
  "(string \<Rightarrow> json option) \<Rightarrow> string \<Rightarrow> string \<Rightarrow> value_error + json" where
  "parse_agtag_block loads block repo_path =
     (case (find_char CHR ''{'' block, rfind_char CHR ''}'' block) of
        (Some jstart, Some jend) \<Rightarrow>
          (let jtxt = slice block jstart (jend + 1) in
           if length jtxt > MAX_AGTAG_SIZE then Inl TooLarge
           else (case loads jtxt of
                   None \<Rightarrow> Inl InvalidJson
                 | Some data \<Rightarrow>
                     (case check_json_depth data MAX_JSON_DEPTH 0 of
                        Inl e \<Rightarrow> Inl e
                      | Inr _ \<Rightarrow>
                          (case validate_agtag_data data repo_path of
                             Inl e \<Rightarrow> Inl e
                           | Inr _ \<Rightarrow> Inr data))))
      | _ \<Rightarrow> Inl MissingJson)"









declare check_json_depth.simps(1) [simp del]

section \<open>More of Python's string operations\<close>

text \<open>
  \<^verbatim>\<open>str.splitlines()\<close>: a line ends at \<^verbatim>\<open>\n\<close>, \<^verbatim>\<open>\r\<close>, \<^verbatim>\<open>\r\n\<close> (one
  boundary), \<^verbatim>\<open>\v\<close>, \<^verbatim>\<open>\f\<close>, \<^verbatim>\<open>\x1c\<close>, \<^verbatim>\<open>\x1d\<close>, \<^verbatim>\<open>\x1e\<close> or
  \<^verbatim>\<open>\x85\<close>; the boundaries are dropped, and text after the last boundary is a line
  only if it is not empty. (The two boundaries above code point 255 are outside the
  character type.)
\<close>

definition linebreak :: "char \<Rightarrow> bool" where
  "linebreak c = (c \<in> {CHR 0x0A, CHR 0x0D, CHR 0x0B, CHR 0x0C, CHR 0x1C, CHR 0x1D, CHR 0x1E, CHR 0x85})"

fun splitlines_from :: "string \<Rightarrow> string \<Rightarrow> string list" where
  "splitlines_from cur [] = (if cur = [] then [] else [cur])"
| "splitlines_from cur (c # cs) =
     (if c = CHR 0x0D then
        (case cs of
           [] \<Rightarrow> [cur]
         | d # ds \<Rightarrow> if d = CHR 0x0A then cur # splitlines_from [] ds
                    else cur # splitlines_from [] (d # ds))
      else if linebreak c then cur # splitlines_from [] cs
      else splitlines_from (cur @ [c]) cs)"

definition splitlines :: "string \<Rightarrow> string list" where
  "splitlines s = splitlines_from [] s"

text \<open>\<^verbatim>\<open>sep.join(xs)\<close>.\<close>

fun join :: "string \<Rightarrow> string list \<Rightarrow> string" where
  "join sep [] = []"
| "join sep [x] = x"
| "join sep (x # y # ys) = x @ sep @ join sep (y # ys)"

text \<open>\<^verbatim>\<open>s.rstrip("\n")\<close>.\<close>

definition rstrip_newlines :: "string \<Rightarrow> string" where
  "rstrip_newlines s = rev (dropWhile (\<lambda>c. c = CHR 0x0A) (rev s))"

text \<open>\<^verbatim>\<open>pat in s\<close> and \<^verbatim>\<open>s.rfind(pat)\<close> for a substring.\<close>

fun contains :: "string \<Rightarrow> string \<Rightarrow> bool" where
  "contains pat [] = (pat = [])"
| "contains pat (c # cs) = (startswith (c # cs) pat \<or> contains pat cs)"

fun rfind :: "string \<Rightarrow> string \<Rightarrow> nat option" where
  "rfind pat [] = (if pat = [] then Some 0 else None)"
| "rfind pat (c # cs) =
     (case rfind pat cs of
        Some i \<Rightarrow> Some (Suc i)
      | None \<Rightarrow> if startswith (c # cs) pat then Some 0 else None)"

text \<open>\<^verbatim>\<open>str.lower()\<close> on code points below 256.\<close>

definition lower_char :: "char \<Rightarrow> char" where
  "lower_char c =
     (let n = of_char c :: nat in
      if (65 \<le> n \<and> n \<le> 90) \<or> (192 \<le> n \<and> n \<le> 222 \<and> n \<noteq> 215)
      then char_of (n + 32) else c)"

definition lower :: "string \<Rightarrow> string" where
  "lower s = map lower_char s"

section \<open>Library functions taken as parameters\<close>

text \<open>
  The standard-library functions the code calls: the hexadecimal SHA-256 digest,
  \<^verbatim>\<open>json.loads\<close> (\<^term>\<open>None\<close> for \<^verbatim>\<open>JSONDecodeError\<close>), \<^verbatim>\<open>json.dumps\<close>,
  \<^verbatim>\<open>os.path.normpath\<close>, and \<^verbatim>\<open>ast.parse\<close> (\<^term>\<open>None\<close> for
  \<^verbatim>\<open>SyntaxError\<close>). Of a parsed module the code only reads, in \<^verbatim>\<open>ast.walk\<close> order,
  the function and class definitions with their name and line, the callee names inside a
  function (\<^verbatim>\<open>_collect_call_targets\<close>) and the base names of a class
  (\<^verbatim>\<open>_collect_inheritance_targets\<close>); the module is modelled as that list.
\<close>

datatype ast_node =
    FunctionDef string int "string list"
  | ClassDef string int "string list"

record pylib =
  sha256_hex :: "string \<Rightarrow> string"
  json_loads :: "string \<Rightarrow> json option"
  json_dumps :: "json \<Rightarrow> string"
  normpath :: "string \<Rightarrow> string"
  ast_parse :: "string \<Rightarrow> ast_node list option"

definition sha256_bytes :: "pylib \<Rightarrow> string \<Rightarrow> string" where
  "sha256_bytes L b = ''sha256:'' @ sha256_hex L b"

definition AGTAG_START :: string where
  \<open>AGTAG_START = [CHR 0x0A, CHR 0x0A] @ ''<!--AGTAG v1 START-->''\<close>

definition AGTAG_END :: string where
  \<open>AGTAG_END = ''<!--AGTAG v1 END-->''\<close>

definition split_agtag :: "string \<Rightarrow> string \<times> string option" where
  "split_agtag content =
     (case rfind AGTAG_START content of
        None \<Rightarrow> (content, None)
      | Some idx \<Rightarrow>
          (let tail = drop idx content in
           if \<not> contains AGTAG_END tail then (content, None)
           else (take idx content, Some tail)))"

section \<open>The store\<close>

text \<open>
  The tables of the SQLite file that the core reads and writes. \<^verbatim>\<open>files\<close> is keyed by
  \<^verbatim>\<open>repo_path\<close>; a text column is a \<^typ>\<open>string option\<close> (\<^term>\<open>None\<close> for NULL).
  The column \<^verbatim>\<open>last_seen\<close> (a timestamp) is left out. \<^verbatim>\<open>schema.sql\<close> is not among
  the sources; symbol ids are taken to be SQLite row ids, one more than the largest id
  in the table.
\<close>

record file_row =
  file_hash :: string
  db_state :: string

record symbol_row =
  sym_id :: nat
  repo_path :: string
  name :: "string option"
  kind :: "string option"
  signature :: "string option"
  start_line :: "int option"
  end_line :: "int option"
  content_hash :: string
  l0_overview :: "string option"
  l1_contract :: "string option"
  l2_pseudocode :: "string option"
  l3_ast_json :: "string option"

record fts_row =
  fts_rowid :: nat
  fts_repo_path :: string
  fts_name :: "string option"
  fts_l0_overview :: "string option"
  fts_l1_contract :: "string option"

record edge_row =
  src_id :: nat
  dst_id :: nat
  edge_type :: string

record store =
  files :: "string \<rightharpoonup> file_row"
  symbols :: "symbol_row list"
  symbols_fts :: "fts_row list"
  edges :: "edge_row list"
  ops_log :: "(string \<times> string) list"

text \<open>
  A connection: statements change the \<open>pending\<close> state, \<^verbatim>\<open>conn.commit()\<close> makes it
  durable, and closing the connection (or leaving the process) without a commit drops
  what is pending. \<open>snapshots\<close> lists the durable states that earlier commits left
  behind, oldest first.
\<close>

record conn =
  pending :: store
  durable :: store
  snapshots :: "store list"

definition execute :: "(store \<Rightarrow> store) \<Rightarrow> conn \<Rightarrow> conn" where
  "execute f c = c\<lparr>pending := f (pending c)\<rparr>"

definition commit :: "conn \<Rightarrow> conn" where
  "commit c = c\<lparr>durable := pending c, snapshots := snapshots c @ [durable c]\<rparr>"

definition close :: "conn \<Rightarrow> conn" where
  "close c = c\<lparr>pending := durable c\<rparr>"

section \<open>Symbol index builder (core.py)\<close>

definition upsert_file :: "string \<Rightarrow> string \<Rightarrow> string \<Rightarrow> store \<Rightarrow> store" where
  "upsert_file p h st s = s\<lparr>files := (files s)(p \<mapsto> \<lparr>file_hash = h, db_state = st\<rparr>)\<rparr>"

text \<open>\<^verbatim>\<open>INSERT INTO ops_log(op, details)\<close> with
  \<^verbatim>\<open>details = json.dumps({"path": safe_path})\<close>.\<close>

definition log_op :: "pylib \<Rightarrow> string \<Rightarrow> string \<Rightarrow> store \<Rightarrow> store" where
  "log_op L op p s =
     s\<lparr>ops_log := ops_log s @ [(op, json_dumps L (JObj [(''path'', JStr p)]))]\<rparr>"

text \<open>\<^verbatim>\<open>clear_symbols\<close> with \<^verbatim>\<open>_delete_edges_for_symbol_ids\<close>: no commit.\<close>

definition clear_symbols :: "string \<Rightarrow> store \<Rightarrow> store" where
  "clear_symbols p s =
     (let symbol_ids = map sym_id (filter (\<lambda>r. repo_path r = p) (symbols s)) in
      s\<lparr>edges := filter (\<lambda>e. dst_id e \<notin> set symbol_ids)
                  (filter (\<lambda>e. src_id e \<notin> set symbol_ids) (edges s)),
        symbols := filter (\<lambda>r. repo_path r \<noteq> p) (symbols s),
        symbols_fts := filter (\<lambda>r. fts_repo_path r \<noteq> p) (symbols_fts s)\<rparr>)"

text \<open>
  Reading a symbol descriptor. After schema validation the text properties are strings
  (or null, or absent), \<^verbatim>\<open>lines\<close> is a list of two integers or nulls; a value of
  another type reads as NULL here.
\<close>

fun text_of :: "json option \<Rightarrow> string option" where
  "text_of (Some (JStr s)) = Some s"
| "text_of _ = None"

fun line_number :: "json \<Rightarrow> int option" where
  "line_number (JInt i) = Some i"
| "line_number _ = None"

text \<open>\<^verbatim>\<open>raw_lines = s.get("lines") or [None, None]\<close>, padded to two entries.\<close>

definition raw_lines_of :: "json \<Rightarrow> json list" where
  "raw_lines_of s =
     (let raw_lines = (case json_get s ''lines'' of
                         Some (JArr xs) \<Rightarrow> if xs \<noteq> [] then xs else [JNull, JNull]
                       | _ \<Rightarrow> [JNull, JNull])
      in if length raw_lines < 2 then raw_lines @ replicate (2 - length raw_lines) JNull
         else raw_lines)"

definition l3_of :: "pylib \<Rightarrow> json \<Rightarrow> string option" where
  "l3_of L s =
     (let ast_l3 = (case json_get s ''ast_l3'' of
                      Some w \<Rightarrow> if truthy w then Some (json_dumps L w) else None
                    | None \<Rightarrow> None)
      in case json_get s ''ast_excerpt_l3'' of
           Some v \<Rightarrow> if truthy v then Some (json_dumps L v) else ast_l3
         | None \<Rightarrow> ast_l3)"

text \<open>
  The body of the loop of \<^verbatim>\<open>upsert_symbols\<close> for one descriptor: the row to insert
  (its id is given at insertion) or the \<^verbatim>\<open>ValueError\<close> raised.
\<close>

definition symbol_row_of ::
  "pylib \<Rightarrow> string \<Rightarrow> string \<Rightarrow> string list \<Rightarrow> json \<Rightarrow> value_error + symbol_row" where
  "symbol_row_of L p full_content lines_cache s =
     (let raw_lines = raw_lines_of s;
          s_line = line_number (raw_lines ! 0);
          e_line = line_number (raw_lines ! 1);
          total_lines = int (length lines_cache);
          row = (\<lambda>chash. \<lparr>sym_id = 0, repo_path = p,
                   name = text_of (json_get s ''name''),
                   kind = text_of (json_get s ''kind''),
                   signature = text_of (json_get s ''signature''),
                   start_line = s_line, end_line = e_line, content_hash = chash,
                   l0_overview = text_of (json_get s ''summary_l0''),
                   l1_contract = text_of (json_get s ''contract_l1''),
                   l2_pseudocode = text_of (json_get s ''pseudocode_l2''),
                   l3_ast_json = l3_of L s\<rparr>)
      in case (s_line, e_line) of
           (Some a, Some b) \<Rightarrow>
             if a < 1 \<or> b < a then Inl InvalidLineRange
             else if b > total_lines then Inl BeyondFileLength
             else Inr (row (sha256_bytes L
                    (join [CHR 0x0A] (slice lines_cache (nat (a - 1)) (nat b)))))
         | _ \<Rightarrow> Inr (row (sha256_bytes L full_content)))"

fun build_symbol_rows ::
  "pylib \<Rightarrow> string \<Rightarrow> string \<Rightarrow> string list \<Rightarrow> json list \<Rightarrow> value_error + symbol_row list" where
  "build_symbol_rows L p full_content lines_cache [] = Inr []"
| "build_symbol_rows L p full_content lines_cache (s # ss) =
     (case symbol_row_of L p full_content lines_cache s of
        Inl e \<Rightarrow> Inl e
      | Inr r \<Rightarrow>
          (case build_symbol_rows L p full_content lines_cache ss of
             Inl e \<Rightarrow> Inl e
           | Inr rs \<Rightarrow> Inr (r # rs)))"

text \<open>\<^verbatim>\<open>_find_symbol_node\<close>: the first definition in walk order with the symbol's name
  and start line (a class only for a symbol of kind \<^verbatim>\<open>class\<close>).\<close>

fun node_matches :: "symbol_row \<Rightarrow> ast_node \<Rightarrow> bool" where
  "node_matches symbol (ClassDef n l bases) =
     (lower (case kind symbol of Some k \<Rightarrow> k | None \<Rightarrow> []) = ''class''
      \<and> Some n = name symbol \<and> Some l = start_line symbol)"
| "node_matches symbol (FunctionDef n l calls) = (Some n = name symbol \<and> Some l = start_line symbol)"

definition find_symbol_node :: "ast_node list option \<Rightarrow> symbol_row \<Rightarrow> ast_node option" where
  "find_symbol_node module_ast symbol =
     (case module_ast of
        None \<Rightarrow> None
      | Some nodes \<Rightarrow>
          if name symbol = None \<or> name symbol = Some [] \<or> start_line symbol = None then None
          else find (node_matches symbol) nodes)"

text \<open>\<^verbatim>\<open>name_to_id\<close>: a later symbol of the same name replaces an earlier one.\<close>

definition name_to_id :: "symbol_row list \<Rightarrow> string \<rightharpoonup> nat" where
  "name_to_id syms =
     map_of (rev (map (\<lambda>r. (the (name r), sym_id r))
                   (filter (\<lambda>r. name r \<noteq> None \<and> name r \<noteq> Some []) syms)))"

definition edges_to :: "(string \<rightharpoonup> nat) \<Rightarrow> nat \<Rightarrow> string \<Rightarrow> string list \<Rightarrow> edge_row list" where
  "edges_to n2i symbol_id ty targets =
     concat (map (\<lambda>target.
        (case n2i target of
           None \<Rightarrow> []
         | Some d \<Rightarrow> if d \<noteq> 0 \<and> d \<noteq> symbol_id
                     then [\<lparr>src_id = symbol_id, dst_id = d, edge_type = ty\<rparr>] else []))
        targets)"

text \<open>\<^verbatim>\<open>_build_symbol_edges\<close>. The source collects the edges in a set; the order in which
  that set is listed is fixed here to the order of first insertion.\<close>

definition build_symbol_edges :: "ast_node list option \<Rightarrow> symbol_row list \<Rightarrow> edge_row list" where
  "build_symbol_edges module_ast syms =
     (if module_ast = None \<or> syms = [] then []
      else remdups (concat (map (\<lambda>symbol.
             (case find_symbol_node module_ast symbol of
                None \<Rightarrow> []
              | Some (FunctionDef n l calls) \<Rightarrow>
                  edges_to (name_to_id syms) (sym_id symbol) ''calls'' calls
              | Some (ClassDef n l bases) \<Rightarrow>
                  edges_to (name_to_id syms) (sym_id symbol) ''inherits'' bases))
             syms)))"

definition next_rowid :: "symbol_row list \<Rightarrow> nat" where
  "next_rowid tbl = fold max (map sym_id tbl) 0 + 1"

definition assign_ids :: "nat \<Rightarrow> symbol_row list \<Rightarrow> symbol_row list" where
  "assign_ids n rows = map (\<lambda>(i, r). r\<lparr>sym_id := i\<rparr>) (zip [n ..< n + length rows] rows)"

definition fts_of :: "symbol_row \<Rightarrow> fts_row" where
  "fts_of r = \<lparr>fts_rowid = sym_id r, fts_repo_path = repo_path r, fts_name = name r,
               fts_l0_overview = l0_overview r, fts_l1_contract = l1_contract r\<rparr>"

text \<open>The three inserts of \<^verbatim>\<open>upsert_symbols\<close>: the symbol rows, the FTS rows copied from
  the symbols of the path, and the edges (\<^verbatim>\<open>INSERT OR IGNORE\<close>).\<close>

definition insert_symbol_rows ::
  "ast_node list option \<Rightarrow> string \<Rightarrow> symbol_row list \<Rightarrow> store \<Rightarrow> store" where
  "insert_symbol_rows parsed_ast p symbol_rows s =
     (let s1 = s\<lparr>symbols := symbols s @ assign_ids (next_rowid (symbols s)) symbol_rows\<rparr>;
          inserted_symbols = filter (\<lambda>r. repo_path r = p) (symbols s1);
          s2 = s1\<lparr>symbols_fts := symbols_fts s1 @ map fts_of inserted_symbols\<rparr>;
          new_edges = build_symbol_edges parsed_ast inserted_symbols
      in s2\<lparr>edges := edges s2 @ filter (\<lambda>e. e \<notin> set (edges s2)) new_edges\<rparr>)"

text \<open>\<^verbatim>\<open>upsert_symbols\<close>: on a \<^verbatim>\<open>ValueError\<close> the deletions of \<^verbatim>\<open>clear_symbols\<close> are
  pending and nothing is committed; otherwise the function ends with
  \<^verbatim>\<open>conn.commit()\<close>.\<close>

definition upsert_symbols ::
  "pylib \<Rightarrow> conn \<Rightarrow> string \<Rightarrow> json \<Rightarrow> string \<Rightarrow> (value_error + unit) \<times> conn" where
  "upsert_symbols L c p agtag full_content =
     (let c1 = execute (clear_symbols p) c;
          lines_cache = splitlines full_content;
          parsed_ast = (if endswith p ''.py'' then ast_parse L full_content else None)
      in case build_symbol_rows L p full_content lines_cache (symbols_of agtag) of
           Inl e \<Rightarrow> (Inl e, c1)
         | Inr symbol_rows \<Rightarrow>
             (let c2 = (if symbol_rows \<noteq> []
                        then execute (insert_symbol_rows parsed_ast p symbol_rows) c1 else c1)
              in (Inr (), commit c2)))"

section \<open>Ingest (core.py)\<close>

datatype ingest_error =
    Indexed_file_rejects_full_content
  | Agtag_missing
  | Agtag_invalid value_error
  | Agtag_symbol_invalid value_error

record ingest_ok =
  ok_path :: string
  ok_file_hash :: string

text \<open>
  \<^verbatim>\<open>_ingest_file_content(conn, safe_path, content, write_to_disk)\<close>. The working tree
  is a map from paths to file contents. The result is the returned payload or the
  \<^verbatim>\<open>IngestError\<close>, with the connection and the working tree as the call leaves them.
\<close>

definition ingest_file_content ::
  "pylib \<Rightarrow> conn \<Rightarrow> (string \<rightharpoonup> string) \<Rightarrow> string \<Rightarrow> string \<Rightarrow> bool
     \<Rightarrow> (ingest_error + ingest_ok) \<times> conn \<times> (string \<rightharpoonup> string)" where
  "ingest_file_content L c disk safe_path content write_to_disk =
     (let fhash = sha256_bytes L content;
          state = (case files (pending c) safe_path of
                     Some row \<Rightarrow> db_state row
                   | None \<Rightarrow> ''missing'')
      in if state \<noteq> ''missing'' then (Inl Indexed_file_rejects_full_content, c, disk)
         else (case split_agtag content of
                 (code, None) \<Rightarrow> (Inl Agtag_missing, c, disk)
               | (code, Some agtag_block) \<Rightarrow>
                   (case parse_agtag_block (json_loads L) agtag_block safe_path of
                      Inl e \<Rightarrow> (Inl (Agtag_invalid e), c, disk)
                    | Inr agtag \<Rightarrow>
                        (let disk1 = (if write_to_disk
                                      then disk(safe_path \<mapsto> rstrip_newlines content @ [CHR 0x0A])
                                      else disk)
                         in case upsert_symbols L c safe_path agtag code of
                              (Inl e, c1) \<Rightarrow> (Inl (Agtag_symbol_invalid e), c1, disk1)
                            | (Inr u, c1) \<Rightarrow>
                                (let c2 = execute (upsert_file safe_path fhash ''indexed'') c1;
                                     c3 = execute (log_op L ''ingest_file'' safe_path) c2
                                 in (Inr \<lparr>ok_path = safe_path, ok_file_hash = fhash\<rparr>,
                                     commit c3, disk1))))))"

section \<open>A small file and a stand-in library, for evaluating the operations\<close>

definition demo_json_text :: string where
  \<open>demo_json_text = ''{"version":"v1","symbols":[{"name":"f","kind":"function","lines":[1,2]}]}''\<close>

definition demo_agtag :: json where
  "demo_agtag = JObj [(''version'', JStr ''v1''),
     (''symbols'', JArr [JObj [(''name'', JStr ''f''), (''kind'', JStr ''function''),
                               (''lines'', JArr [JInt 1, JInt 2])]])]"

definition demo_code :: string where
  \<open>demo_code = ''def f():\<newline>    pass''\<close>

definition demo_block :: string where
  \<open>demo_block = AGTAG_START @ ''\<newline>'' @ demo_json_text @ ''\<newline>'' @ AGTAG_END @ ''\<newline>''\<close>

definition demo_content :: string where
  "demo_content = demo_code @ demo_block"

definition bad_json_text :: string where
  \<open>bad_json_text = ''{"version":"v1","symbols":[{"name":"f","kind":"function","lines":[1,99]}]}''\<close>

definition bad_agtag :: json where
  "bad_agtag = JObj [(''version'', JStr ''v1''),
     (''symbols'', JArr [JObj [(''name'', JStr ''f''), (''kind'', JStr ''function''),
                               (''lines'', JArr [JInt 1, JInt 99])]])]"

definition bad_block :: string where
  \<open>bad_block = AGTAG_START @ ''\<newline>'' @ bad_json_text @ ''\<newline>'' @ AGTAG_END @ ''\<newline>''\<close>

definition bad_content :: string where
  "bad_content = demo_code @ bad_block"

definition demo_lib :: pylib where
  "demo_lib = \<lparr>sha256_hex = (\<lambda>b. b),
     json_loads = (\<lambda>s. if s = demo_json_text then Some demo_agtag
                       else if s = bad_json_text then Some bad_agtag else None),
     json_dumps = (\<lambda>j. ''{}''),
     normpath = (\<lambda>p. p),
     ast_parse = (\<lambda>s. None)\<rparr>"

definition empty_store :: store where
  "empty_store = \<lparr>files = Map.empty, symbols = [], symbols_fts = [], edges = [], ops_log = []\<rparr>"

definition fresh_conn :: conn where
  "fresh_conn = \<lparr>pending = empty_store, durable = empty_store, snapshots = []\<rparr>"

definition demo_row :: symbol_row where
  "demo_row = \<lparr>sym_id = 1, repo_path = ''f.py'', name = Some ''f'', kind = Some ''function'', signature = None,
          start_line = Some 1, end_line = Some 2, content_hash = ''sha256:'' @ demo_code,
          l0_overview = None, l1_contract = None, l2_pseudocode = None, l3_ast_json = None\<rparr>"

definition demo_store_symbols :: store where
  "demo_store_symbols = \<lparr>files = Map.empty, symbols = [demo_row], symbols_fts = [fts_of demo_row],
      edges = [], ops_log = []\<rparr>"

definition demo_store_indexed :: store where
  "demo_store_indexed = \<lparr>files = [''f.py'' \<mapsto> \<lparr>file_hash = ''sha256:'' @ demo_content, db_state = ''indexed''\<rparr>],
      symbols = [demo_row], symbols_fts = [fts_of demo_row],
      edges = [], ops_log = [(''ingest_file'', ''{}'')]\<rparr>"

definition indexed_conn :: conn where
  "indexed_conn = \<lparr>pending = demo_store_indexed, durable = demo_store_indexed,
        snapshots = [empty_store, demo_store_symbols]\<rparr>"


section \<open>Focus graph (focus.py)\<close>

text \<open>
  The payloads that \<^verbatim>\<open>get_context\<close> returns. \<^verbatim>\<open>neighbors\<close> is the dict
  \<^verbatim>\<open>neighbors_by_depth\<close> in insertion order, its key \<^verbatim>\<open>depth_n\<close> kept as the
  number \<open>n\<close>.
\<close>

record primary_payload =
  pr_id :: nat
  pr_repo_path :: string
  pr_name :: "string option"
  pr_kind :: "string option"
  pr_l0_overview :: "string option"
  pr_l1_contract :: "string option"
  pr_start_line :: "int option"
  pr_end_line :: "int option"

record neighbor_payload =
  nb_id :: nat
  nb_repo_path :: string
  nb_name :: "string option"
  nb_kind :: "string option"
  nb_l0_overview :: "string option"

record endpoint_payload =
  en_id :: nat
  en_name :: "string option"
  en_repo_path :: string

record edge_payload =
  ep_type :: string
  ep_source :: endpoint_payload
  ep_target :: endpoint_payload

record stats_payload =
  symbols_returned :: nat
  edges_traversed :: nat
  max_depth_reached :: nat

record context_payload =
  primary :: primary_payload
  neighbors :: "(nat \<times> neighbor_payload list) list"
  edges_payload :: "edge_payload list"
  stats :: stats_payload

datatype focus_error =
    Bad_depth
  | Handle_invalid
  | Symbol_required
  | Not_indexed
  | Hash_conflict
  | Symbol_not_found

text \<open>\<^verbatim>\<open>_symbol_by_name\<close>: the matching row of least id. \<^verbatim>\<open>_symbol_by_id\<close>: the row
  with that id (the cache only repeats the query).\<close>

definition symbol_by_name :: "store \<Rightarrow> string \<Rightarrow> string \<Rightarrow> symbol_row option" where
  "symbol_by_name db p nm =
     (case filter (\<lambda>r. repo_path r = p \<and> name r = Some nm) (symbols db) of
        [] \<Rightarrow> None
      | r # rs \<Rightarrow> Some (fold (\<lambda>a b. if sym_id a < sym_id b then a else b) rs r))"

definition symbol_by_id :: "store \<Rightarrow> nat \<Rightarrow> symbol_row option" where
  "symbol_by_id db i = find (\<lambda>r. sym_id r = i) (symbols db)"

definition edges_incident :: "store \<Rightarrow> nat \<Rightarrow> string set \<Rightarrow> edge_row list" where
  "edges_incident db symbol_id include_types =
     filter (\<lambda>e. \<not> (include_types \<noteq> {} \<and> edge_type e \<notin> include_types))
       (filter (\<lambda>e. src_id e = symbol_id \<or> dst_id e = symbol_id) (edges db))"

definition serialize_primary :: "symbol_row \<Rightarrow> primary_payload" where
  "serialize_primary r =
     \<lparr>pr_id = sym_id r, pr_repo_path = repo_path r, pr_name = name r, pr_kind = kind r,
      pr_l0_overview = l0_overview r, pr_l1_contract = l1_contract r,
      pr_start_line = start_line r, pr_end_line = end_line r\<rparr>"

definition serialize_neighbor :: "symbol_row \<Rightarrow> neighbor_payload" where
  "serialize_neighbor r =
     \<lparr>nb_id = sym_id r, nb_repo_path = repo_path r, nb_name = name r, nb_kind = kind r,
      nb_l0_overview = l0_overview r\<rparr>"

definition serialize_edge :: "store \<Rightarrow> edge_row \<Rightarrow> edge_payload option" where
  "serialize_edge db e =
     (case (symbol_by_id db (src_id e), symbol_by_id db (dst_id e)) of
        (Some src, Some dst) \<Rightarrow>
          Some \<lparr>ep_type = edge_type e,
                ep_source = \<lparr>en_id = sym_id src, en_name = name src, en_repo_path = repo_path src\<rparr>,
                ep_target = \<lparr>en_id = sym_id dst, en_name = name dst, en_repo_path = repo_path dst\<rparr>\<rparr>
      | _ \<Rightarrow> None)"

text \<open>The variables of the traversal loop.\<close>

record bfs_state =
  visited :: "nat set"
  queue :: "(nat \<times> nat) list"
  edges_seen :: "edge_row set"
  edges_acc :: "edge_payload list"
  neighbors_by_depth :: "(nat \<times> neighbor_payload list) list"

text \<open>\<^verbatim>\<open>neighbors_by_depth.setdefault(key, []).append(item)\<close>.\<close>

fun bucket_append ::
  "nat \<Rightarrow> neighbor_payload \<Rightarrow> (nat \<times> neighbor_payload list) list
     \<Rightarrow> (nat \<times> neighbor_payload list) list" where
  "bucket_append k x [] = [(k, [x])]"
| "bucket_append k x ((j, xs) # bs) =
     (if j = k then (j, xs @ [x]) # bs else (j, xs) # bucket_append k x bs)"

text \<open>The body of \<^verbatim>\<open>for edge in edges\<close> for the node \<open>current_id\<close> taken from the
  queue at depth \<open>current_depth\<close>.\<close>

definition visit_edge ::
  "store \<Rightarrow> string \<Rightarrow> nat \<Rightarrow> nat \<Rightarrow> nat \<Rightarrow> edge_row \<Rightarrow> bfs_state \<Rightarrow> bfs_state" where
  "visit_edge db p depth current_id current_depth e st =
     (let st1 = (if e \<notin> edges_seen st
                 then (case serialize_edge db e of
                         Some serialized \<Rightarrow>
                           st\<lparr>edges_acc := edges_acc st @ [serialized],
                              edges_seen := insert e (edges_seen st)\<rparr>
                       | None \<Rightarrow> st)
                 else st);
          neighbor_id = (if current_id = src_id e then dst_id e else src_id e)
      in if neighbor_id \<in> visited st1 then st1
         else (case symbol_by_id db neighbor_id of
                 None \<Rightarrow> st1
               | Some neighbor \<Rightarrow>
                   if repo_path neighbor \<noteq> p then st1
                   else (let next_depth = current_depth + 1 in
                         if next_depth > depth then st1
                         else st1\<lparr>visited := insert neighbor_id (visited st1),
                                  queue := queue st1 @ [(neighbor_id, next_depth)],
                                  neighbors_by_depth :=
                                    bucket_append next_depth (serialize_neighbor neighbor)
                                      (neighbors_by_depth st1)\<rparr>)))"

definition visit_edges ::
  "store \<Rightarrow> string \<Rightarrow> nat \<Rightarrow> nat \<Rightarrow> nat \<Rightarrow> edge_row list \<Rightarrow> bfs_state \<Rightarrow> bfs_state" where
  "visit_edges db p depth current_id current_depth es st =
     fold (visit_edge db p depth current_id current_depth) es st"

text \<open>The loop \<^verbatim>\<open>while queue\<close>: take the head of the queue; a node at the requested
  depth is not expanded.\<close>

function bfs_loop :: "store \<Rightarrow> string \<Rightarrow> nat \<Rightarrow> string set \<Rightarrow> bfs_state \<Rightarrow> bfs_state" where
  "bfs_loop db p depth type_set st =
     (case queue st of
        [] \<Rightarrow> st
      | (current_id, current_depth) # rest \<Rightarrow>
          if current_depth \<ge> depth then bfs_loop db p depth type_set (st\<lparr>queue := rest\<rparr>)
          else bfs_loop db p depth type_set
                 (visit_edges db p depth current_id current_depth
                    (edges_incident db current_id type_set) (st\<lparr>queue := rest\<rparr>)))"
  by pat_completeness auto

termination
proof (relation "measure (\<lambda>(db, p, depth, type_set, st).
          2 * card (set (map sym_id (symbols db)) - visited st) + length (queue st))")
  show "wf (measure (\<lambda>(db, p, depth, type_set, st).
          2 * card (set (map sym_id (symbols db)) - visited st) + length (queue st)))"
    by simp
next
  fix db :: store and p :: string and depth :: nat and type_set :: "string set"
    and st :: bfs_state and x21 x22 current_id current_depth
  assume "queue st = x21 # x22" "(current_id, current_depth) = x21"
  then show "((db, p, depth, type_set, st\<lparr>queue := x22\<rparr>), db, p, depth, type_set, st)
       \<in> measure (\<lambda>(db, p, depth, type_set, st).
          2 * card (set (map sym_id (symbols db)) - visited st) + length (queue st))"
    by simp
next
  fix db :: store and p :: string and depth :: nat and type_set :: "string set"
    and st :: bfs_state and x21 x22 current_id current_depth
  assume q: "queue st = x21 # x22" "(current_id, current_depth) = x21"
  define S where "S = set (map sym_id (symbols db))"
  have fin: "finite S" by (simp add: S_def)
  let ?m = "\<lambda>s. 2 * card (S - visited s) + length (queue s)"
  have eff: "(visited (visit_edge db p depth current_id current_depth e s) = visited s
              \<and> queue (visit_edge db p depth current_id current_depth e s) = queue s)
           \<or> (\<exists>n r. symbol_by_id db n = Some r \<and> n \<notin> visited s
                \<and> visited (visit_edge db p depth current_id current_depth e s) = insert n (visited s)
                \<and> queue (visit_edge db p depth current_id current_depth e s)
                    = queue s @ [(n, Suc current_depth)])" for e s
    unfolding visit_edge_def Let_def
    by (auto split: option.splits)
  have mem: "n \<in> S" if "symbol_by_id db n = Some r" for n r
    using that unfolding symbol_by_id_def S_def
    by (auto simp: find_Some_iff)
  have ins: "2 * card (S - insert n V) + Suc l \<le> 2 * card (S - V) + l"
    if "n \<in> S" "n \<notin> V" for n V l
  proof -
    have "finite (S - V)" using fin by simp
    moreover have "n \<in> S - V" using that by simp
    ultimately have "card (S - V - {n}) < card (S - V)"
      by (meson card_Diff1_less)
    moreover have "S - insert n V = S - V - {n}" by auto
    ultimately show ?thesis by simp
  qed
  have step: "?m (visit_edge db p depth current_id current_depth e s) \<le> ?m s" for e s
    using eff[of e s]
  proof (elim disjE exE conjE)
    assume "visited (visit_edge db p depth current_id current_depth e s) = visited s"
      "queue (visit_edge db p depth current_id current_depth e s) = queue s"
    then show ?thesis by simp
  next
    fix n r
    assume "symbol_by_id db n = Some r" "n \<notin> visited s"
      and v: "visited (visit_edge db p depth current_id current_depth e s) = insert n (visited s)"
      and q: "queue (visit_edge db p depth current_id current_depth e s)
                = queue s @ [(n, Suc current_depth)]"
    then have "2 * card (S - insert n (visited s)) + Suc (length (queue s))
               \<le> 2 * card (S - visited s) + length (queue s)"
      by (intro ins mem)
    then show ?thesis by (simp add: v q)
  qed
  have "?m (fold (visit_edge db p depth current_id current_depth) es s) \<le> ?m s" for es s
  proof (induction es arbitrary: s)
    case Nil
    show ?case by simp
  next
    case (Cons e es)
    have "?m (fold (visit_edge db p depth current_id current_depth) es
              (visit_edge db p depth current_id current_depth e s))
          \<le> ?m (visit_edge db p depth current_id current_depth e s)"
      by (rule Cons.IH)
    also have "\<dots> \<le> ?m s" by (rule step)
    finally show ?case by simp
  qed
  from this[of "edges_incident db current_id type_set" "st\<lparr>queue := x22\<rparr>"] q
  show "((db, p, depth, type_set,
          visit_edges db p depth current_id current_depth (edges_incident db current_id type_set)
            (st\<lparr>queue := x22\<rparr>)), db, p, depth, type_set, st)
       \<in> measure (\<lambda>(db, p, depth, type_set, st).
          2 * card (set (map sym_id (symbols db)) - visited st) + length (queue st))"
    by (simp add: visit_edges_def S_def)
qed

declare bfs_loop.simps [simp del]

text \<open>\<^verbatim>\<open>FocusGraph.get_context\<close>. Buckets are sorted by \<^verbatim>\<open>(name or "", kind or "")\<close>
  and edges by source name, target name and type; Python's sort is stable, as is
  \<^const>\<open>sort_key\<close>. (A NULL name among the edges would make Python's comparison raise;
  rows written after validation always have a name, and NULL reads as the empty string
  here.)\<close>

definition or_empty :: "string option \<Rightarrow> string" where
  "or_empty x = (case x of None \<Rightarrow> [] | Some s \<Rightarrow> s)"

definition get_context ::
  "store \<Rightarrow> string \<Rightarrow> string \<Rightarrow> int \<Rightarrow> string list option \<Rightarrow> focus_error + context_payload" where
  "get_context db p symbol_name depth include_types =
     (case symbol_by_name db p symbol_name of
        None \<Rightarrow> Inl Symbol_not_found
      | Some symbol \<Rightarrow>
          if depth \<le> 0 then
            Inr \<lparr>primary = serialize_primary symbol, neighbors = [], edges_payload = [],
                 stats = \<lparr>symbols_returned = 1, edges_traversed = 0, max_depth_reached = 0\<rparr>\<rparr>
          else
            (let type_set = set (filter (\<lambda>t. t \<noteq> [])
                               (case include_types of None \<Rightarrow> [] | Some ts \<Rightarrow> ts));
                 st = bfs_loop db p (nat depth) type_set
                        \<lparr>visited = {sym_id symbol}, queue = [(sym_id symbol, 0)],
                         edges_seen = {}, edges_acc = [], neighbors_by_depth = []\<rparr>;
                 buckets = map (\<lambda>(k, bucket).
                             (k, sort_key (\<lambda>item. (or_empty (nb_name item), or_empty (nb_kind item)))
                                   bucket))
                           (neighbors_by_depth st);
                 edges_sorted = sort_key (\<lambda>item. (or_empty (en_name (ep_source item)),
                                                   or_empty (en_name (ep_target item)),
                                                   ep_type item))
                                  (edges_acc st);
                 max_depth = fold max (map fst buckets) 0
             in Inr \<lparr>primary = serialize_primary symbol, neighbors = buckets,
                     edges_payload = edges_sorted,
                     stats = \<lparr>symbols_returned = 1 + sum_list (map (\<lambda>(k, bucket). length bucket) buckets),
                              edges_traversed = length edges_sorted,
                              max_depth_reached = max_depth\<rparr>\<rparr>))"

section \<open>Handles, focus and zoom (core.py)\<close>

text \<open>
  \<^verbatim>\<open>parse_handle\<close> matches
  \<^verbatim>\<open>ctx://(.+?)::(.+?)@([^#]+)(?:#l(\d+))?\<close> at the start of the handle. A lazy group
  takes the shortest non-empty run without a newline after which the rest still matches.
\<close>

fun lazy_until :: "string \<Rightarrow> string \<Rightarrow> (string \<Rightarrow> 'a option) \<Rightarrow> string \<Rightarrow> (string \<times> 'a) option" where
  "lazy_until acc sep k [] = None"
| "lazy_until acc sep k (c # cs) =
     (if c = CHR 0x0A then None
      else if startswith cs sep then
        (case k (drop (length sep) cs) of
           Some r \<Rightarrow> Some (acc @ [c], r)
         | None \<Rightarrow> lazy_until (acc @ [c]) sep k cs)
      else lazy_until (acc @ [c]) sep k cs)"

definition is_digit :: "char \<Rightarrow> bool" where
  "is_digit c = (48 \<le> (of_char c :: nat) \<and> (of_char c :: nat) \<le> 57)"

definition nat_of_digits :: "string \<Rightarrow> nat" where
  "nat_of_digits ds = fold (\<lambda>c n. 10 * n + (of_char c - 48)) ds 0"

definition level_of :: "string \<Rightarrow> nat option" where
  "level_of rest =
     (if startswith rest ''#l'' then
        (let ds = takeWhile is_digit (drop 2 rest) in
         if ds = [] then None else Some (nat_of_digits ds))
      else None)"

definition hash_and_level :: "string \<Rightarrow> (string \<times> nat option) option" where
  "hash_and_level r =
     (let h = takeWhile (\<lambda>c. c \<noteq> CHR ''#'') r in
      if h = [] then None else Some (h, level_of (drop (length h) r)))"

record handle =
  h_repo_path :: string
  h_symbol :: string
  h_hash :: string
  h_level :: "nat option"

definition parse_handle :: "string \<Rightarrow> handle option" where
  "parse_handle handle_text =
     (if startswith handle_text ''ctx://'' then
        (case lazy_until [] ''::'' (lazy_until [] ''@'' hash_and_level) (drop 6 handle_text) of
           Some (rp, sy, hs, lv) \<Rightarrow>
             Some \<lparr>h_repo_path = rp, h_symbol = sy, h_hash = hs, h_level = lv\<rparr>
         | None \<Rightarrow> None)
      else None)"

text \<open>\<^verbatim>\<open>s.split(",")\<close> and \<^verbatim>\<open>s.strip()\<close>.\<close>

fun split_on :: "char \<Rightarrow> string \<Rightarrow> string list" where
  "split_on c [] = [[]]"
| "split_on c (x # xs) =
     (if x = c then [] # split_on c xs
      else (case split_on c xs of
              [] \<Rightarrow> [[x]]
            | y # ys \<Rightarrow> (x # y) # ys))"

definition whitespace :: "char \<Rightarrow> bool" where
  "whitespace c = (c \<in> {CHR 0x09, CHR 0x0A, CHR 0x0B, CHR 0x0C, CHR 0x0D, CHR 0x1C, CHR 0x1D,
                         CHR 0x1E, CHR 0x1F, CHR 0x20, CHR 0x85, CHR 0xA0})"

definition py_strip :: "string \<Rightarrow> string" where
  "py_strip s = rev (dropWhile whitespace (rev (dropWhile whitespace s)))"

text \<open>
  The \<^verbatim>\<open>focus\<close> command after the database is open: the checks in the order of the
  source, then the graph query. (The command prints the context together with the
  handle, the depth and the filters it was given.)
\<close>

definition focus :: "store \<Rightarrow> string \<Rightarrow> int \<Rightarrow> string \<Rightarrow> focus_error + context_payload" where
  "focus db handle_text depth types_filter =
     (if depth < 0 then Inl Bad_depth
      else
        (let include_types = filter (\<lambda>t. t \<noteq> []) (map py_strip (split_on CHR '','' types_filter)) in
         case parse_handle handle_text of
           None \<Rightarrow> Inl Handle_invalid
         | Some h \<Rightarrow>
             if h_symbol h = ''ANY'' then Inl Symbol_required
             else (case files db (h_repo_path h) of
                     None \<Rightarrow> Inl Not_indexed
                   | Some file_row \<Rightarrow>
                       if db_state file_row \<noteq> ''indexed'' then Inl Not_indexed
                       else if h_hash h \<noteq> [] \<and> lower (h_hash h) \<noteq> ''sha256:any''
                               \<and> file_hash file_row \<noteq> h_hash h
                       then Inl Hash_conflict
                       else get_context db (h_repo_path h) (h_symbol h) depth
                              (if include_types = [] then None else Some include_types))))"

text \<open>\<^verbatim>\<open>xs[i:j]\<close> for any integers \<open>i\<close> and \<open>j\<close>.\<close>

definition py_slice :: "'a list \<Rightarrow> int \<Rightarrow> int \<Rightarrow> 'a list" where
  "py_slice xs i j =
     (let n = int (length xs);
          norm = (\<lambda>k. if k < 0 then max 0 (n + k) else min k n)
      in take (nat (norm j - norm i)) (drop (nat (norm i)) xs))"

datatype zoom_error =
    Bad_level
  | Invalid_handle
  | Not_found
  | Invalid_l3_json

datatype l4_result = L4 string | L4_error

record zoom_data =
  z_l0 :: "string option"
  z_l1 :: "string option"
  z_l2 :: "string option option"
  z_l3 :: "json option"
  z_l4 :: "l4_result option"

text \<open>
  The \<^verbatim>\<open>zoom\<close> command: the symbol row is the first one of the path with the
  handle's symbol name (any row for \<^verbatim>\<open>ANY\<close>). The handle's hash is parsed and not
  read again; the \<^verbatim>\<open>files\<close> table is not consulted.
\<close>

definition zoom ::
  "pylib \<Rightarrow> store \<Rightarrow> (string \<rightharpoonup> string) \<Rightarrow> string \<Rightarrow> int \<Rightarrow> zoom_error + zoom_data" where
  "zoom L db disk handle_text level =
     (if level < 0 \<or> level > 4 then Inl Bad_level
      else (case parse_handle handle_text of
              None \<Rightarrow> Inl Invalid_handle
            | Some h \<Rightarrow>
                (case find (\<lambda>r. repo_path r = h_repo_path h
                                 \<and> (name r = Some (h_symbol h) \<or> h_symbol h = ''ANY''))
                        (symbols db) of
                   None \<Rightarrow> Inl Not_found
                 | Some r \<Rightarrow>
                     (let l3 = (if level \<ge> 3
                                then (case json_loads L
                                             (if l3_ast_json r = None \<or> l3_ast_json r = Some []
                                              then ''{}'' else the (l3_ast_json r)) of
                                        None \<Rightarrow> Inl Invalid_l3_json
                                      | Some j \<Rightarrow> Inr (Some j))
                                else Inr None);
                          l4 = (if level \<ge> 4
                                then (case disk (h_repo_path h) of
                                        None \<Rightarrow> Some L4_error
                                      | Some text \<Rightarrow>
                                          (let lines = splitlines text;
                                               s = (case start_line r of
                                                      None \<Rightarrow> 1
                                                    | Some a \<Rightarrow> if a = 0 then 1 else a);
                                               e = (case end_line r of
                                                      None \<Rightarrow> int (length lines)
                                                    | Some b \<Rightarrow> if b = 0 then int (length lines) else b)
                                           in Some (L4 (join [CHR 0x0A] (py_slice lines (s - 1) e)))))
                                else None)
                      in case l3 of
                           Inl err \<Rightarrow> Inl err
                         | Inr l3v \<Rightarrow>
                             Inr \<lparr>z_l0 = l0_overview r, z_l1 = l1_contract r,
                                  z_l2 = (if level \<ge> 2 then Some (l2_pseudocode r) else None),
                                  z_l3 = l3v, z_l4 = l4\<rparr>))))"

text \<open>
  The graph that the traversal walks: from a node \<open>u\<close>, along an edge that has \<open>u\<close> as
  source or target and passes the type filter, to the other end, provided that is a
  symbol of the same file. \<open>walk db p T s n v\<close>: \<open>v\<close> is reached from \<open>s\<close> in
  \<open>n\<close> such steps. \<open>in_bucket\<close>: a symbol id occurs in the bucket of a depth.
\<close>

definition neighbor_of :: "nat \<Rightarrow> edge_row \<Rightarrow> nat" where
  "neighbor_of u e = (if u = src_id e then dst_id e else src_id e)"

definition same_file_symbol :: "store \<Rightarrow> string \<Rightarrow> nat \<Rightarrow> bool" where
  "same_file_symbol db p v =
     (case symbol_by_id db v of Some r \<Rightarrow> repo_path r = p | None \<Rightarrow> False)"

definition adjacent :: "store \<Rightarrow> string \<Rightarrow> string set \<Rightarrow> nat \<Rightarrow> nat \<Rightarrow> bool" where
  "adjacent db p T u v =
     (list_ex (\<lambda>e. neighbor_of u e = v) (edges_incident db u T) \<and> same_file_symbol db p v)"

inductive walk :: "store \<Rightarrow> string \<Rightarrow> string set \<Rightarrow> nat \<Rightarrow> nat \<Rightarrow> nat \<Rightarrow> bool"
  for db p T s where
  walk_start: "walk db p T s 0 s"
| walk_step: "walk db p T s n u \<Longrightarrow> adjacent db p T u v \<Longrightarrow> walk db p T s (Suc n) v"

definition in_bucket :: "(nat \<times> neighbor_payload list) list \<Rightarrow> nat \<Rightarrow> nat \<Rightarrow> bool" where
  "in_bucket buckets k v = list_ex (\<lambda>(j, b). j = k \<and> list_ex (\<lambda>x. nb_id x = v) b) buckets"

definition level :: "nat \<Rightarrow> bfs_state \<Rightarrow> nat \<Rightarrow> nat \<Rightarrow> bool" where
  "level s st k v = ((k = 0 \<and> v = s) \<or> in_bucket (neighbors_by_depth st) k v)"

text \<open>The invariant of the outer loop and, while the edges of a node \<open>u\<close> taken from the
  queue at depth \<open>k\<close> are being visited, of the inner loop (\<open>dn\<close> are the edges
  visited so far).\<close>

definition bfs_inv ::
  "store \<Rightarrow> string \<Rightarrow> nat \<Rightarrow> string set \<Rightarrow> nat \<Rightarrow> bfs_state \<Rightarrow> bool" where
  "bfs_inv db p depth T s st =
     ((\<forall>j v. level s st j v \<longrightarrow> walk db p T s j v \<and> j \<le> depth \<and> v \<in> visited st)
    \<and> (\<forall>v \<in> visited st. \<exists>j. level s st j v)
    \<and> (\<forall>j j' v. level s st j v \<longrightarrow> level s st j' v \<longrightarrow> j = j')
    \<and> (\<forall>x \<in> set (queue st). level s st (snd x) (fst x))
    \<and> sorted (map snd (queue st))
    \<and> (\<forall>x xs. queue st = x # xs \<longrightarrow> (\<forall>j v. level s st j v \<longrightarrow> j \<le> snd x + 1))
    \<and> (\<forall>j v. level s st j v \<longrightarrow> v \<notin> fst ` set (queue st) \<longrightarrow> j < depth \<longrightarrow>
          (\<forall>w. adjacent db p T v w \<longrightarrow> (\<exists>i \<le> j + 1. level s st i w))))"

definition inner_inv ::
  "store \<Rightarrow> string \<Rightarrow> nat \<Rightarrow> string set \<Rightarrow> nat \<Rightarrow> nat \<Rightarrow> nat \<Rightarrow> edge_row set
     \<Rightarrow> bfs_state \<Rightarrow> bool" where
  "inner_inv db p depth T s u k dn st =
     ((\<forall>j v. level s st j v \<longrightarrow> walk db p T s j v \<and> j \<le> depth \<and> v \<in> visited st)
    \<and> (\<forall>v \<in> visited st. \<exists>j. level s st j v)
    \<and> (\<forall>j j' v. level s st j v \<longrightarrow> level s st j' v \<longrightarrow> j = j')
    \<and> (\<forall>x \<in> set (queue st). level s st (snd x) (fst x) \<and> k \<le> snd x)
    \<and> sorted (map snd (queue st))
    \<and> (\<forall>j v. level s st j v \<longrightarrow> j \<le> k + 1)
    \<and> (\<forall>j v. level s st j v \<longrightarrow> v \<notin> fst ` set (queue st) \<longrightarrow> v \<noteq> u \<longrightarrow> j < depth \<longrightarrow>
          (\<forall>w. adjacent db p T v w \<longrightarrow> (\<exists>i \<le> j + 1. level s st i w)))
    \<and> (\<forall>e \<in> dn. same_file_symbol db p (neighbor_of u e) \<longrightarrow>
          (\<exists>i \<le> k + 1. level s st i (neighbor_of u e)))
    \<and> level s st k u \<and> k < depth)"

definition main_row :: symbol_row where
  "main_row = \<lparr>sym_id = 1, repo_path = ''m.py'', name = Some ''main'', kind = Some ''function'',
     signature = None, start_line = Some 1, end_line = Some 2, content_hash = ''sha256:a'',
     l0_overview = Some ''entry'', l1_contract = None, l2_pseudocode = None, l3_ast_json = None\<rparr>"

definition helper_row :: symbol_row where
  "helper_row = \<lparr>sym_id = 2, repo_path = ''m.py'', name = Some ''helper'', kind = Some ''function'',
     signature = None, start_line = Some 4, end_line = Some 5, content_hash = ''sha256:b'',
     l0_overview = Some ''helps'', l1_contract = None, l2_pseudocode = None, l3_ast_json = None\<rparr>"

definition calls_store :: store where
  "calls_store = \<lparr>files = [''m.py'' \<mapsto> \<lparr>file_hash = ''sha256:m'', db_state = ''indexed''\<rparr>],
     symbols = [main_row, helper_row], symbols_fts = [],
     edges = [\<lparr>src_id = 1, dst_id = 2, edge_type = ''calls''\<rparr>], ops_log = []\<rparr>"

definition calls_context :: context_payload where
  "calls_context =
     \<lparr>primary = serialize_primary main_row,
      neighbors = [(1, [serialize_neighbor helper_row])],
      edges_payload = [\<lparr>ep_type = ''calls'',
          ep_source = \<lparr>en_id = 1, en_name = Some ''main'', en_repo_path = ''m.py''\<rparr>,
          ep_target = \<lparr>en_id = 2, en_name = Some ''helper'', en_repo_path = ''m.py''\<rparr>\<rparr>],
      stats = \<lparr>symbols_returned = 2, edges_traversed = 1, max_depth_reached = 1\<rparr>\<rparr>"

section \<open>Verified properties\<close>


subsection \<open>Metadata-block limits\<close>




lemma find_char_append:
  "find_char c (xs @ ys) =
     (case find_char c xs of
        Some i \<Rightarrow> Some i
      | None \<Rightarrow> (case find_char c ys of None \<Rightarrow> None | Some i \<Rightarrow> Some (length xs + i)))"
  by (induction xs) (auto split: option.splits)




subsection \<open>Ingest\<close>

lemma split_demo: "split_agtag demo_content = (demo_code, Some demo_block)"
proof -
  have r: "rfind AGTAG_START demo_content = Some 17"
    by (simp add: demo_content_def demo_block_def demo_code_def AGTAG_START_def AGTAG_END_def
        demo_json_text_def startswith_def)
  have d: "drop 17 demo_content = demo_block" "take 17 demo_content = demo_code"
    by (simp_all add: demo_content_def demo_code_def)
  have c: "contains AGTAG_END demo_block"
    by (simp add: demo_block_def demo_code_def AGTAG_START_def AGTAG_END_def
        demo_json_text_def startswith_def)
  show ?thesis by (simp add: split_agtag_def r d c)
qed

lemma parse_demo: "parse_agtag_block (json_loads demo_lib) demo_block ''f.py'' = Inr demo_agtag"
proof -
  have j: "slice demo_block 24 97 = demo_json_text"
    by (simp add: demo_block_def AGTAG_START_def AGTAG_END_def demo_json_text_def slice_def)
  have a: "find_char CHR ''{'' demo_block = Some 24"
    by (simp add: demo_block_def AGTAG_START_def AGTAG_END_def demo_json_text_def)
  have b: "rfind_char CHR ''}'' demo_block = Some 96"
    by (simp add: demo_block_def AGTAG_START_def AGTAG_END_def demo_json_text_def rfind_char_def)
  have v: "validate_agtag_data demo_agtag ''f.py'' = Inr ()"
    by (simp add: validate_agtag_data_def demo_agtag_def has_key_def prop_ok_def symbols_of_def lines_shape_bad_def)
  have d: "check_json_depth demo_agtag MAX_JSON_DEPTH 0 = Inr ()"
    by (simp add: demo_agtag_def MAX_JSON_DEPTH_def check_json_depth.simps(1))
  have n: "length demo_json_text \<le> MAX_AGTAG_SIZE"
    by (simp add: demo_json_text_def MAX_AGTAG_SIZE_def)
  show ?thesis
    using n by (simp add: parse_agtag_block_def a b j v d demo_lib_def Let_def)
qed

lemma rows_demo: "build_symbol_rows demo_lib ''f.py'' demo_code (splitlines demo_code) (symbols_of demo_agtag)
   = Inr [\<lparr>sym_id = 0, repo_path = ''f.py'', name = Some ''f'', kind = Some ''function'', signature = None,
          start_line = Some 1, end_line = Some 2, content_hash = ''sha256:'' @ demo_code,
          l0_overview = None, l1_contract = None, l2_pseudocode = None, l3_ast_json = None\<rparr>]"
  by (simp add: demo_agtag_def demo_code_def splitlines_def linebreak_def symbol_row_of_def raw_lines_of_def
       l3_of_def slice_def sha256_bytes_def demo_lib_def symbols_of_def)

lemma upsert_demo:
  "upsert_symbols demo_lib fresh_conn ''f.py'' demo_agtag demo_code =
     (Inr (), \<lparr>pending = demo_store_symbols, durable = demo_store_symbols, snapshots = [empty_store]\<rparr>)"
proof -
  have a: "ast_parse demo_lib demo_code = None" by (simp add: demo_lib_def)
  show ?thesis
    by (simp add: upsert_symbols_def rows_demo a Let_def)
      (simp add: fresh_conn_def execute_def commit_def clear_symbols_def
        empty_store_def insert_symbol_rows_def next_rowid_def assign_ids_def build_symbol_edges_def
        demo_store_symbols_def demo_row_def Let_def)
qed

lemma ingest_demo:
  "ingest_file_content demo_lib fresh_conn Map.empty ''f.py'' demo_content True =
     (Inr \<lparr>ok_path = ''f.py'', ok_file_hash = ''sha256:'' @ demo_content\<rparr>,
      \<lparr>pending = demo_store_indexed, durable = demo_store_indexed,
        snapshots = [empty_store, demo_store_symbols]\<rparr>,
      [''f.py'' \<mapsto> rstrip_newlines demo_content @ ''\<newline>''])"
proof -
  have f: "files (pending fresh_conn) ''f.py'' = None"
    by (simp add: fresh_conn_def empty_store_def)
  show ?thesis
    by (simp add: ingest_file_content_def f split_demo parse_demo upsert_demo Let_def)
      (simp add: execute_def commit_def upsert_file_def log_op_def demo_store_symbols_def
        demo_store_indexed_def sha256_bytes_def demo_lib_def)
qed

lemma ingest_success:
  assumes "ingest_file_content L c disk p content w = (Inr ok, c', disk')"
  shows "\<exists>code blk agtag c1.
           (case files (pending c) p of Some row \<Rightarrow> db_state row | None \<Rightarrow> ''missing'') = ''missing''
         \<and> split_agtag content = (code, Some blk)
         \<and> parse_agtag_block (json_loads L) blk p = Inr agtag
         \<and> upsert_symbols L c p agtag code = (Inr (), c1)
         \<and> c' = commit (execute (log_op L ''ingest_file'' p)
                  (execute (upsert_file p (sha256_bytes L content) ''indexed'') c1))
         \<and> disk' = (if w then disk(p \<mapsto> rstrip_newlines content @ [CHR 0x0A]) else disk)
         \<and> ok = \<lparr>ok_path = p, ok_file_hash = sha256_bytes L content\<rparr>"
  using assms unfolding ingest_file_content_def Let_def
  by (auto split: if_splits prod.splits option.splits sum.splits)

lemma ingest_success_files:
  assumes "ingest_file_content L c disk p content w = (Inr ok, c', disk')"
  shows "files (pending c') p = Some \<lparr>file_hash = sha256_bytes L content, db_state = ''indexed''\<rparr>"
    and "durable c' = pending c'"
  using ingest_success[OF assms]
  by (auto simp: commit_def execute_def upsert_file_def log_op_def)

text \<open>
  Claim C5. A path whose file row has a state other than \<open>missing\<close> (so every indexed
  path) is rejected with \<open>indexed_file_rejects_full_content\<close>, and the connection and
  the working tree are returned as they were; an ingest that succeeds started from a path
  with no file row or one in state \<open>missing\<close>.
\<close>

theorem ingest_only_from_missing:
  "(\<forall>row. files (pending c) p = Some row \<and> db_state row \<noteq> ''missing'' \<longrightarrow>
       ingest_file_content L c disk p content w = (Inl Indexed_file_rejects_full_content, c, disk))
   \<and> (\<forall>ok. fst (ingest_file_content L c disk p content w) = Inr ok \<longrightarrow>
       (case files (pending c) p of None \<Rightarrow> True | Some row \<Rightarrow> db_state row = ''missing''))"
proof (intro conjI allI impI)
  fix row
  assume "files (pending c) p = Some row \<and> db_state row \<noteq> ''missing''"
  then show "ingest_file_content L c disk p content w = (Inl Indexed_file_rejects_full_content, c, disk)"
    by (simp add: ingest_file_content_def)
next
  fix ok
  assume a: "fst (ingest_file_content L c disk p content w) = Inr ok"
  obtain c' disk' where "ingest_file_content L c disk p content w = (Inr ok, c', disk')"
    using a by (cases "ingest_file_content L c disk p content w") auto
  from ingest_success[OF this]
  show "case files (pending c) p of None \<Rightarrow> True | Some row \<Rightarrow> db_state row = ''missing''"
    by (auto split: option.splits)
qed

theorem ingest_only_from_missing_witness:
  "files (pending indexed_conn) ''f.py'' =
      Some \<lparr>file_hash = ''sha256:'' @ demo_content, db_state = ''indexed''\<rparr>
   \<and> ingest_file_content demo_lib indexed_conn Map.empty ''f.py'' demo_content True =
      (Inl Indexed_file_rejects_full_content, indexed_conn, Map.empty)
   \<and> fst (ingest_file_content demo_lib fresh_conn Map.empty ''f.py'' demo_content True) =
      Inr \<lparr>ok_path = ''f.py'', ok_file_hash = ''sha256:'' @ demo_content\<rparr>
   \<and> files (pending fresh_conn) ''f.py'' = None"
proof -
  have f: "files (pending indexed_conn) ''f.py'' =
      Some \<lparr>file_hash = ''sha256:'' @ demo_content, db_state = ''indexed''\<rparr>"
    by (simp add: indexed_conn_def demo_store_indexed_def)
  have g: "files (pending fresh_conn) ''f.py'' = None"
    by (simp add: fresh_conn_def empty_store_def)
  from ingest_only_from_missing[of indexed_conn "''f.py''" demo_lib Map.empty demo_content True] f
  have "ingest_file_content demo_lib indexed_conn Map.empty ''f.py'' demo_content True =
      (Inl Indexed_file_rejects_full_content, indexed_conn, Map.empty)"
    by simp
  with f g ingest_demo show ?thesis by simp
qed

lemma endswith_rev: "endswith s p = (take (length p) (rev s) = rev p)"
proof
  assume "endswith s p"
  then have l: "length p \<le> length s" and d: "drop (length s - length p) s = p"
    by (simp_all add: endswith_def)
  have "rev p = rev (drop (length s - length p) s)" using d by simp
  also have "\<dots> = take (length p) (rev s)" using l by (simp add: rev_drop)
  finally show "take (length p) (rev s) = rev p" by simp
next
  assume a: "take (length p) (rev s) = rev p"
  then have "length (take (length p) (rev s)) = length p" by simp
  then have l: "length p \<le> length s" by simp
  have "drop (length s - length p) s = rev (take (length p) (rev s))"
    using l by (simp add: rev_take)
  with a l show "endswith s p" by (simp add: endswith_def)
qed

lemma dropWhile_not_Cons: "dropWhile P xs \<noteq> y # xs"
  using length_dropWhile_le[of P xs] by (metis impossible_Cons)

lemma dropWhile_id: "(dropWhile P xs = xs) = (xs = [] \<or> \<not> P (hd xs))"
proof (cases xs)
  case Nil then show ?thesis by simp
next
  case (Cons x ys)
  have "length (dropWhile P ys) \<le> length ys" by (rule length_dropWhile_le)
  then have "dropWhile P ys \<noteq> x # ys" by (metis impossible_Cons)
  with Cons show ?thesis by auto
qed

lemma rstrip_newlines_fixpoint:
  "(rstrip_newlines s @ [CHR 0x0A] = s) =
     (endswith s [CHR 0x0A] \<and> \<not> endswith s [CHR 0x0A, CHR 0x0A])"
proof -
  have "(rstrip_newlines s @ [CHR 0x0A] = s) =
        (CHR 0x0A # dropWhile (\<lambda>c. c = CHR 0x0A) (rev s) = rev s)"
    unfolding rstrip_newlines_def by (metis rev.simps(2) rev_rev_ident rev_swap)
  also have "\<dots> = (endswith s [CHR 0x0A] \<and> \<not> endswith s [CHR 0x0A, CHR 0x0A])"
  proof (cases "rev s")
    case Nil
    then show ?thesis by (simp add: endswith_rev)
  next
    case (Cons x r)
    then show ?thesis
      by (cases r) (auto simp: endswith_rev dropWhile_id dropWhile_not_Cons)
  qed
  finally show ?thesis .
qed

text \<open>
  Claim C9. After a successful single-file ingest the file row holds the digest of the
  content as submitted, and the working tree holds the content with its trailing
  newlines replaced by exactly one. For an injective digest the two agree exactly when
  the submitted content ends in one newline and not in two.
\<close>

theorem ingest_hash_and_disk:
  assumes "ingest_file_content L c disk p content True = (Inr ok, c', disk')"
  shows "files (durable c') p = Some \<lparr>file_hash = sha256_bytes L content, db_state = ''indexed''\<rparr>
       \<and> ok_file_hash ok = sha256_bytes L content
       \<and> disk' p = Some (rstrip_newlines content @ [CHR 0x0A])
       \<and> (inj (sha256_hex L) \<longrightarrow>
            (sha256_bytes L (rstrip_newlines content @ [CHR 0x0A]) = sha256_bytes L content)
            = (endswith content [CHR 0x0A] \<and> \<not> endswith content [CHR 0x0A, CHR 0x0A]))"
proof -
  from ingest_success[OF assms] ingest_success_files[OF assms]
  have "files (durable c') p = Some \<lparr>file_hash = sha256_bytes L content, db_state = ''indexed''\<rparr>"
    and "ok_file_hash ok = sha256_bytes L content"
    and "disk' p = Some (rstrip_newlines content @ [CHR 0x0A])"
    by auto
  moreover have "inj (sha256_hex L) \<longrightarrow>
            (sha256_bytes L (rstrip_newlines content @ [CHR 0x0A]) = sha256_bytes L content)
            = (endswith content [CHR 0x0A] \<and> \<not> endswith content [CHR 0x0A, CHR 0x0A])"
    using rstrip_newlines_fixpoint[of content] by (auto simp: sha256_bytes_def inj_def)
  ultimately show ?thesis by blast
qed

theorem ingest_hash_and_disk_witness:
  "inj (sha256_hex demo_lib)
   \<and> files demo_store_indexed ''f.py'' =
        Some \<lparr>file_hash = sha256_bytes demo_lib demo_content, db_state = ''indexed''\<rparr>
   \<and> (sha256_bytes demo_lib (rstrip_newlines demo_content @ [CHR 0x0A])
          = sha256_bytes demo_lib demo_content)
       = (endswith demo_content [CHR 0x0A] \<and> \<not> endswith demo_content [CHR 0x0A, CHR 0x0A])"
proof -
  have i: "inj (sha256_hex demo_lib)" by (simp add: demo_lib_def inj_def)
  from ingest_hash_and_disk[OF ingest_demo] i show ?thesis by simp
qed





lemma split_bad: "split_agtag bad_content = (demo_code, Some bad_block)"
proof -
  have r: "rfind AGTAG_START bad_content = Some 17"
    by (simp add: bad_content_def bad_block_def demo_code_def AGTAG_START_def AGTAG_END_def
        bad_json_text_def startswith_def)
  have d: "drop 17 bad_content = bad_block" "take 17 bad_content = demo_code"
    by (simp_all add: bad_content_def demo_code_def)
  have c: "contains AGTAG_END bad_block"
    by (simp add: bad_block_def demo_code_def AGTAG_START_def AGTAG_END_def
        bad_json_text_def startswith_def)
  show ?thesis by (simp add: split_agtag_def r d c)
qed

lemma parse_bad: "parse_agtag_block (json_loads demo_lib) bad_block ''f.py'' = Inr bad_agtag"
proof -
  have j: "slice bad_block 24 98 = bad_json_text"
    by (simp add: bad_block_def AGTAG_START_def AGTAG_END_def bad_json_text_def slice_def)
  have a: "find_char CHR ''{'' bad_block = Some 24"
    by (simp add: bad_block_def AGTAG_START_def AGTAG_END_def bad_json_text_def)
  have b: "rfind_char CHR ''}'' bad_block = Some 97"
    by (simp add: bad_block_def AGTAG_START_def AGTAG_END_def bad_json_text_def rfind_char_def)
  have v: "validate_agtag_data bad_agtag ''f.py'' = Inr ()"
    by (simp add: validate_agtag_data_def bad_agtag_def has_key_def prop_ok_def symbols_of_def
        lines_shape_bad_def)
  have d: "check_json_depth bad_agtag MAX_JSON_DEPTH 0 = Inr ()"
    by (simp add: bad_agtag_def MAX_JSON_DEPTH_def check_json_depth.simps(1))
  have n: "length bad_json_text \<le> MAX_AGTAG_SIZE"
    by (simp add: bad_json_text_def MAX_AGTAG_SIZE_def)
  have l: "json_loads demo_lib bad_json_text = Some bad_agtag"
    by (simp add: demo_lib_def bad_json_text_def demo_json_text_def)
  show ?thesis
    using n by (simp add: parse_agtag_block_def a b j v d l Let_def)
qed

lemma upsert_bad:
  "upsert_symbols demo_lib fresh_conn ''f.py'' bad_agtag demo_code = (Inl BeyondFileLength, fresh_conn)"
proof -
  have r: "build_symbol_rows demo_lib ''f.py'' demo_code (splitlines demo_code) (symbols_of bad_agtag)
      = Inl BeyondFileLength"
    by (simp add: bad_agtag_def demo_code_def splitlines_def linebreak_def symbol_row_of_def
        raw_lines_of_def symbols_of_def)
  show ?thesis
    by (simp add: upsert_symbols_def r Let_def)
      (simp add: fresh_conn_def execute_def clear_symbols_def empty_store_def)
qed

text \<open>
  Claim C1 does not hold of the code. Ingesting the small file into an empty store
  commits twice: \<open>upsert_symbols\<close> ends with its own commit, so the database passes
  through a durable state that holds the rebuilt symbol rows but no file row, before the
  file row is committed. And when the rebuild fails (here a line range beyond the end of
  the file), the file has already been written to the working tree although the
  database, once the connection is closed, is as before.
\<close>

theorem ingest_not_one_transaction:
  "snapshots (fst (snd (ingest_file_content demo_lib fresh_conn Map.empty ''f.py'' demo_content True)))
     = [empty_store, demo_store_symbols]
   \<and> symbols demo_store_symbols = [demo_row]
   \<and> files demo_store_symbols ''f.py'' = None
   \<and> ingest_file_content demo_lib fresh_conn Map.empty ''f.py'' bad_content True
     = (Inl (Agtag_symbol_invalid BeyondFileLength), fresh_conn,
        [''f.py'' \<mapsto> rstrip_newlines bad_content @ ''\<newline>''])
   \<and> close fresh_conn = fresh_conn"
proof -
  have f: "files (pending fresh_conn) ''f.py'' = None"
    by (simp add: fresh_conn_def empty_store_def)
  have "ingest_file_content demo_lib fresh_conn Map.empty ''f.py'' bad_content True
     = (Inl (Agtag_symbol_invalid BeyondFileLength), fresh_conn,
        [''f.py'' \<mapsto> rstrip_newlines bad_content @ ''\<newline>''])"
    by (simp add: ingest_file_content_def f split_bad parse_bad upsert_bad Let_def)
  moreover have "close fresh_conn = fresh_conn"
    by (simp add: close_def fresh_conn_def)
  ultimately show ?thesis
    by (simp add: ingest_demo demo_store_symbols_def)
qed

lemma parse_demo_handle:
  "parse_handle ''ctx://f.py::f@sha256:deadbeef#l0''
     = Some \<lparr>h_repo_path = ''f.py'', h_symbol = ''f'', h_hash = ''sha256:deadbeef'', h_level = Some 0\<rparr>"
  by (simp add: parse_handle_def startswith_def hash_and_level_def level_of_def is_digit_def
      nat_of_digits_def Let_def)

subsection \<open>Handles\<close>

lemma focus_hash_conflict:
  assumes "0 \<le> depth" and "parse_handle handle_text = Some h" and "h_symbol h \<noteq> ''ANY''"
    and "files db (h_repo_path h) = Some file_row" and "db_state file_row = ''indexed''"
    and "h_hash h \<noteq> []" and "lower (h_hash h) \<noteq> ''sha256:any''"
  shows "focus db handle_text depth types_filter = Inl Hash_conflict
         \<longleftrightarrow> file_hash file_row \<noteq> h_hash h"
  using assms by (auto simp: focus_def Let_def get_context_def split: option.splits)

text \<open>
  Claim C4 holds for \<open>focus\<close> and not for \<open>zoom\<close>. The file \<open>f.py\<close> is indexed with
  a stored hash other than \<open>sha256:deadbeef\<close>; \<open>focus\<close> on a handle carrying that hash
  fails with \<open>hash_conflict\<close>, while \<open>zoom\<close> on the same handle returns the symbol's
  payload.
\<close>

theorem zoom_ignores_handle_hash:
  "files demo_store_indexed ''f.py''
     = Some \<lparr>file_hash = ''sha256:'' @ demo_content, db_state = ''indexed''\<rparr>
   \<and> ''sha256:'' @ demo_content \<noteq> ''sha256:deadbeef''
   \<and> focus demo_store_indexed ''ctx://f.py::f@sha256:deadbeef'' 1 [] = Inl Hash_conflict
   \<and> zoom demo_lib demo_store_indexed Map.empty ''ctx://f.py::f@sha256:deadbeef#l0'' 0
     = Inr \<lparr>z_l0 = None, z_l1 = None, z_l2 = None, z_l3 = None, z_l4 = None\<rparr>"
proof -
  have f: "files demo_store_indexed ''f.py''
     = Some \<lparr>file_hash = ''sha256:'' @ demo_content, db_state = ''indexed''\<rparr>"
    by (simp add: demo_store_indexed_def)
  have n: "''sha256:'' @ demo_content \<noteq> ''sha256:deadbeef''"
    by (simp add: demo_content_def demo_code_def)
  have h: "parse_handle ''ctx://f.py::f@sha256:deadbeef''
     = Some \<lparr>h_repo_path = ''f.py'', h_symbol = ''f'', h_hash = ''sha256:deadbeef'', h_level = None\<rparr>"
    by (simp add: parse_handle_def startswith_def hash_and_level_def level_of_def Let_def)
  have l: "lower ''sha256:deadbeef'' \<noteq> ''sha256:any''"
    by (simp add: lower_def lower_char_def)
  have fo: "focus demo_store_indexed ''ctx://f.py::f@sha256:deadbeef'' 1 [] = Inl Hash_conflict"
    using n l by (simp add: focus_def h f Let_def)
  have s: "symbols demo_store_indexed = [demo_row]"
    by (simp add: demo_store_indexed_def)
  have zo: "zoom demo_lib demo_store_indexed Map.empty ''ctx://f.py::f@sha256:deadbeef#l0'' 0
     = Inr \<lparr>z_l0 = None, z_l1 = None, z_l2 = None, z_l3 = None, z_l4 = None\<rparr>"
    by (simp add: zoom_def parse_demo_handle s demo_row_def Let_def)
  from f n fo zo show ?thesis by blast
qed

subsection \<open>Focus graph\<close>

lemma in_bucket_append:
  "in_bucket (bucket_append k x bs) j v = (in_bucket bs j v \<or> (j = k \<and> v = nb_id x))"
  by (induction k x bs rule: bucket_append.induct) (auto simp: in_bucket_def)

lemma visit_edge_cases:
  fixes db p depth u k e st
  defines "st' \<equiv> visit_edge db p depth u k e st"
    and "n \<equiv> neighbor_of u e"
  obtains (same) "visited st' = visited st" "queue st' = queue st"
      "neighbors_by_depth st' = neighbors_by_depth st"
      "n \<in> visited st \<or> \<not> same_file_symbol db p n \<or> depth < k + 1"
  | (new) r where "symbol_by_id db n = Some r" "repo_path r = p" "n \<notin> visited st"
      "k + 1 \<le> depth" "visited st' = insert n (visited st)"
      "queue st' = queue st @ [(n, k + 1)]"
      "neighbors_by_depth st' = bucket_append (k + 1) (serialize_neighbor r) (neighbors_by_depth st)"
proof -
  have "(visited st' = visited st \<and> queue st' = queue st
          \<and> neighbors_by_depth st' = neighbors_by_depth st
          \<and> (n \<in> visited st \<or> \<not> same_file_symbol db p n \<or> depth < k + 1))
       \<or> (\<exists>r. symbol_by_id db n = Some r \<and> repo_path r = p \<and> n \<notin> visited st
          \<and> k + 1 \<le> depth \<and> visited st' = insert n (visited st)
          \<and> queue st' = queue st @ [(n, k + 1)]
          \<and> neighbors_by_depth st'
              = bucket_append (k + 1) (serialize_neighbor r) (neighbors_by_depth st))"
    unfolding st'_def n_def visit_edge_def neighbor_of_def same_file_symbol_def Let_def
    by (auto split: option.splits)
  then show thesis using same new by blast
qed

lemma level_queue_update [simp]: "level s (st\<lparr>queue := q\<rparr>) = level s st"
  by (simp add: level_def fun_eq_iff)

lemma bfs_inv_init:
  "bfs_inv db p depth T s
     \<lparr>visited = {s}, queue = [(s, 0)], edges_seen = {}, edges_acc = [], neighbors_by_depth = []\<rparr>"
  by (auto simp: bfs_inv_def level_def in_bucket_def intro: walk_start)

lemma bfs_inv_pop:
  assumes "bfs_inv db p depth T s st" and "queue st = (u, k) # rest" and "depth \<le> k"
  shows "bfs_inv db p depth T s (st\<lparr>queue := rest\<rparr>)"
proof -
  have lu: "level s st k u" using assms(1,2) by (auto simp: bfs_inv_def)
  have uniq: "level s st j v \<Longrightarrow> level s st j' v \<Longrightarrow> j = j'" for j j' v
    using assms(1) unfolding bfs_inv_def by blast
  have bound: "level s st j v \<Longrightarrow> j \<le> k + 1" for j v
    using assms(1,2) unfolding bfs_inv_def by fastforce
  have srt: "sorted (map snd rest)" "\<forall>x \<in> set rest. k \<le> snd x"
    using assms(1,2) by (auto simp: bfs_inv_def)
  have c: "level s st j v \<Longrightarrow> v \<notin> fst ` set rest \<Longrightarrow> j < depth \<Longrightarrow> adjacent db p T v w
           \<Longrightarrow> \<exists>i \<le> j + 1. level s st i w" for j v w
  proof -
    assume a: "level s st j v" "v \<notin> fst ` set rest" "j < depth" "adjacent db p T v w"
    have "v \<noteq> u" using a(1,3) lu uniq assms(3) by fastforce
    then have "v \<notin> fst ` set (queue st)" using a(2) assms(2) by auto
    with a assms(1) show ?thesis unfolding bfs_inv_def by blast
  qed
  have d: "rest = x # xs \<Longrightarrow> level s st j v \<Longrightarrow> j \<le> snd x + 1" for x xs j v
    using bound[of j v] srt(2) by fastforce
  show ?thesis
    unfolding bfs_inv_def
    apply (intro conjI)
    subgoal using assms(1) by (simp add: bfs_inv_def)
    subgoal using assms(1) by (simp add: bfs_inv_def)
    subgoal using uniq by (simp; blast)
    subgoal using assms(1,2) by (simp add: bfs_inv_def)
    subgoal using srt by simp
    subgoal using d by (simp; blast)
    subgoal using c by (simp; blast)
    done
qed

lemma inner_inv_start:
  assumes "bfs_inv db p depth T s st" and "queue st = (u, k) # rest" and "k < depth"
  shows "inner_inv db p depth T s u k {} (st\<lparr>queue := rest\<rparr>)"
proof -
  have lu: "level s st k u" using assms(1,2) by (auto simp: bfs_inv_def)
  have bound: "level s st j v \<Longrightarrow> j \<le> k + 1" for j v
    using assms(1,2) unfolding bfs_inv_def by fastforce
  have srt: "sorted (map snd rest)" "\<forall>x \<in> set rest. k \<le> snd x"
    using assms(1,2) by (auto simp: bfs_inv_def)
  have q: "\<forall>x \<in> set rest. level s st (snd x) (fst x)"
    using assms(1,2) by (auto simp: bfs_inv_def)
  have c: "level s st j v \<Longrightarrow> v \<notin> fst ` set rest \<Longrightarrow> v \<noteq> u \<Longrightarrow> j < depth
           \<Longrightarrow> adjacent db p T v w \<Longrightarrow> \<exists>i \<le> j + 1. level s st i w" for j v w
  proof -
    assume a: "level s st j v" "v \<notin> fst ` set rest" "v \<noteq> u" "j < depth" "adjacent db p T v w"
    then have "v \<notin> fst ` set (queue st)" using assms(2) by auto
    with a assms(1) show ?thesis unfolding bfs_inv_def by blast
  qed
  show ?thesis
    unfolding inner_inv_def
    apply (intro conjI)
    subgoal using assms(1) by (simp add: bfs_inv_def)
    subgoal using assms(1) by (simp add: bfs_inv_def)
    subgoal using assms(1) unfolding bfs_inv_def by (simp; blast)
    subgoal using q srt by simp
    subgoal using srt by simp
    subgoal using bound by (simp; blast)
    subgoal using c by (simp; blast)
    subgoal by simp
    subgoal using lu by simp
    subgoal using assms(3) .
    done
qed

lemma inner_inv_finish:
  assumes "inner_inv db p depth T s u k (set (edges_incident db u T)) st"
  shows "bfs_inv db p depth T s st"
proof -
  have bound: "level s st j v \<Longrightarrow> j \<le> k + 1" for j v
    using assms unfolding inner_inv_def by blast
  have uniq: "level s st j v \<Longrightarrow> level s st j' v \<Longrightarrow> j = j'" for j j' v
    using assms unfolding inner_inv_def by blast
  have lu: "level s st k u" using assms by (simp add: inner_inv_def)
  have qk: "\<forall>x \<in> set (queue st). k \<le> snd x"
    using assms by (simp add: inner_inv_def)
  have cu: "adjacent db p T u w \<Longrightarrow> \<exists>i \<le> k + 1. level s st i w" for w
  proof -
    assume "adjacent db p T u w"
    then obtain e where "e \<in> set (edges_incident db u T)" "neighbor_of u e = w"
      "same_file_symbol db p w"
      by (auto simp: adjacent_def list_ex_iff)
    with assms show ?thesis unfolding inner_inv_def by blast
  qed
  have c: "level s st j v \<Longrightarrow> v \<notin> fst ` set (queue st) \<Longrightarrow> j < depth
           \<Longrightarrow> adjacent db p T v w \<Longrightarrow> \<exists>i \<le> j + 1. level s st i w" for j v w
  proof (cases "v = u")
    case True
    assume "level s st j v" "adjacent db p T v w"
    then have "j = k" using True lu uniq by blast
    then show ?thesis using cu[of w] True \<open>adjacent db p T v w\<close> by simp
  next
    case False
    assume "level s st j v" "v \<notin> fst ` set (queue st)" "j < depth" "adjacent db p T v w"
    with False assms show ?thesis unfolding inner_inv_def by blast
  qed
  have d: "queue st = x # xs \<Longrightarrow> level s st j v \<Longrightarrow> j \<le> snd x + 1" for x xs j v
    using bound[of j v] qk by fastforce
  show ?thesis
    unfolding bfs_inv_def
    apply (intro conjI)
    subgoal using assms by (simp add: inner_inv_def)
    subgoal using assms by (simp add: inner_inv_def)
    subgoal using uniq by blast
    subgoal using assms by (simp add: inner_inv_def)
    subgoal using assms by (simp add: inner_inv_def)
    subgoal using d by blast
    subgoal using c by blast
    done
qed

lemma symbol_by_id_id: "symbol_by_id db n = Some r \<Longrightarrow> sym_id r = n"
  by (auto simp: symbol_by_id_def find_Some_iff)

lemma sorted_snoc_le:
  "sorted xs \<Longrightarrow> \<forall>x \<in> set xs. x \<le> y \<Longrightarrow> sorted (xs @ [y :: nat])"
  by (simp add: sorted_append)

lemma inner_invD:
  assumes "inner_inv db p depth T s u k dn st"
  shows "\<forall>j v. level s st j v \<longrightarrow> walk db p T s j v \<and> j \<le> depth \<and> v \<in> visited st"
    and "\<forall>v \<in> visited st. \<exists>j. level s st j v"
    and "\<forall>j j' v. level s st j v \<longrightarrow> level s st j' v \<longrightarrow> j = j'"
    and "\<forall>x \<in> set (queue st). level s st (snd x) (fst x) \<and> k \<le> snd x"
    and "sorted (map snd (queue st))"
    and "\<forall>j v. level s st j v \<longrightarrow> j \<le> k + 1"
    and "\<forall>j v. level s st j v \<longrightarrow> v \<notin> fst ` set (queue st) \<longrightarrow> v \<noteq> u \<longrightarrow> j < depth \<longrightarrow>
          (\<forall>w. adjacent db p T v w \<longrightarrow> (\<exists>i \<le> j + 1. level s st i w))"
    and "\<forall>e \<in> dn. same_file_symbol db p (neighbor_of u e) \<longrightarrow>
          (\<exists>i \<le> k + 1. level s st i (neighbor_of u e))"
    and "level s st k u" and "k < depth"
  using assms by (simp_all add: inner_inv_def)

lemma inner_inv_step:
  assumes inv: "inner_inv db p depth T s u k dn st"
    and e: "e \<in> set (edges_incident db u T)"
  shows "inner_inv db p depth T s u k (insert e dn) (visit_edge db p depth u k e st)"
proof (cases rule: visit_edge_cases[of db p depth u k e st])
  case same
  let ?st' = "visit_edge db p depth u k e st"
  have lv: "level s ?st' = level s st"
    using same(3) by (simp add: level_def fun_eq_iff)
  have kd: "k < depth" by (rule inner_invD(10)[OF inv])
  have new_e: "same_file_symbol db p (neighbor_of u e)
               \<Longrightarrow> \<exists>i \<le> k + 1. level s st i (neighbor_of u e)"
  proof -
    assume sf: "same_file_symbol db p (neighbor_of u e)"
    with same(4) kd have "neighbor_of u e \<in> visited st" by simp
    then obtain j where "level s st j (neighbor_of u e)"
      using inner_invD(2)[OF inv] by blast
    moreover from this have "j \<le> k + 1" using inner_invD(6)[OF inv] by blast
    ultimately show ?thesis by blast
  qed
  have CU: "\<forall>e' \<in> insert e dn. same_file_symbol db p (neighbor_of u e') \<longrightarrow>
          (\<exists>i \<le> k + 1. level s st i (neighbor_of u e'))"
    using new_e inner_invD(8)[OF inv] by blast
  show ?thesis
    unfolding inner_inv_def lv same(1,2)
    by (intro conjI inner_invD(1-7)[OF inv] CU inner_invD(9,10)[OF inv])
next
  case (new r)
  let ?st' = "visit_edge db p depth u k e st"
  let ?n = "neighbor_of u e"
  have nid: "nb_id (serialize_neighbor r) = ?n"
    using symbol_by_id_id[OF new(1)] by (simp add: serialize_neighbor_def)
  have lv: "level s ?st' j v = (level s st j v \<or> (j = k + 1 \<and> v = ?n))" for j v
    unfolding level_def new(7) in_bucket_append nid by blast
  have a0: "level s st j v \<Longrightarrow> walk db p T s j v \<and> j \<le> depth \<and> v \<in> visited st" for j v
    using inner_invD(1)[OF inv] by blast
  have b0: "v \<in> visited st \<Longrightarrow> \<exists>j. level s st j v" for v
    using inner_invD(2)[OF inv] by blast
  have u0: "level s st j v \<Longrightarrow> level s st j' v \<Longrightarrow> j = j'" for j j' v
    using inner_invD(3)[OF inv] by blast
  have q0: "x \<in> set (queue st) \<Longrightarrow> level s st (snd x) (fst x) \<and> k \<le> snd x" for x
    using inner_invD(4)[OF inv] by blast
  have s0: "sorted (map snd (queue st))" by (rule inner_invD(5)[OF inv])
  have d0: "level s st j v \<Longrightarrow> j \<le> k + 1" for j v
    using inner_invD(6)[OF inv] by blast
  have c0: "level s st j v \<Longrightarrow> v \<notin> fst ` set (queue st) \<Longrightarrow> v \<noteq> u \<Longrightarrow> j < depth
            \<Longrightarrow> adjacent db p T v w \<Longrightarrow> \<exists>i \<le> j + 1. level s st i w" for j v w
    using inner_invD(7)[OF inv] by blast
  have cu0: "e' \<in> dn \<Longrightarrow> same_file_symbol db p (neighbor_of u e')
             \<Longrightarrow> \<exists>i \<le> k + 1. level s st i (neighbor_of u e')" for e'
    using inner_invD(8)[OF inv] by blast
  have lu: "level s st k u" and kd: "k < depth"
    by (rule inner_invD(9)[OF inv], rule inner_invD(10)[OF inv])
  have nolevel: "\<not> level s st j ?n" for j
    using a0[of j ?n] new(3) by blast
  have adj: "adjacent db p T u ?n"
    using e new(1,2) by (auto simp: adjacent_def list_ex_iff same_file_symbol_def)
  have wn: "walk db p T s (k + 1) ?n"
    using walk_step[OF _ adj] a0[OF lu] by simp
  have A: "\<forall>j v. level s ?st' j v \<longrightarrow> walk db p T s j v \<and> j \<le> depth \<and> v \<in> visited ?st'"
    using a0 wn new(4,5) by (auto simp: lv)
  have B: "\<forall>v \<in> visited ?st'. \<exists>j. level s ?st' j v"
    using b0 by (auto simp: lv new(5))
  have U: "\<forall>j j' v. level s ?st' j v \<longrightarrow> level s ?st' j' v \<longrightarrow> j = j'"
    using u0 nolevel by (auto simp: lv)
  have Q: "\<forall>x \<in> set (queue ?st'). level s ?st' (snd x) (fst x) \<and> k \<le> snd x"
    using q0 by (auto simp: lv new(6))
  have S: "sorted (map snd (queue ?st'))"
  proof -
    have "\<forall>x \<in> set (map snd (queue st)). x \<le> k + 1"
      using q0 d0 by fastforce
    from sorted_snoc_le[OF s0 this] show ?thesis by (simp add: new(6))
  qed
  have D: "\<forall>j v. level s ?st' j v \<longrightarrow> j \<le> k + 1"
    using d0 by (auto simp: lv)
  have C: "\<forall>j v. level s ?st' j v \<longrightarrow> v \<notin> fst ` set (queue ?st') \<longrightarrow> v \<noteq> u \<longrightarrow> j < depth \<longrightarrow>
          (\<forall>w. adjacent db p T v w \<longrightarrow> (\<exists>i \<le> j + 1. level s ?st' i w))"
  proof (intro allI impI)
    fix j v w
    assume l: "level s ?st' j v" and nq: "v \<notin> fst ` set (queue ?st')" and "v \<noteq> u"
      and "j < depth" and "adjacent db p T v w"
    from nq have "v \<noteq> ?n" and nq0: "v \<notin> fst ` set (queue st)"
      by (auto simp: new(6))
    with l have "level s st j v" by (simp add: lv)
    from c0[OF this nq0 \<open>v \<noteq> u\<close> \<open>j < depth\<close> \<open>adjacent db p T v w\<close>]
    show "\<exists>i \<le> j + 1. level s ?st' i w" by (auto simp: lv)
  qed
  have CU: "\<forall>e' \<in> insert e dn. same_file_symbol db p (neighbor_of u e') \<longrightarrow>
          (\<exists>i \<le> k + 1. level s ?st' i (neighbor_of u e'))"
  proof (intro ballI impI)
    fix e'
    assume "e' \<in> insert e dn" and sf: "same_file_symbol db p (neighbor_of u e')"
    then consider "e' = e" | "e' \<in> dn" by blast
    then show "\<exists>i \<le> k + 1. level s ?st' i (neighbor_of u e')"
    proof cases
      case 1
      then show ?thesis by (auto simp: lv)
    next
      case 2
      from cu0[OF this sf] show ?thesis by (auto simp: lv)
    qed
  qed
  have LU: "level s ?st' k u" using lu by (simp add: lv)
  show ?thesis
    unfolding inner_inv_def by (intro conjI A B U Q S D C CU LU kd)
qed

lemma inner_inv_fold:
  assumes "inner_inv db p depth T s u k dn st"
    and "set es \<subseteq> set (edges_incident db u T)"
  shows "inner_inv db p depth T s u k (dn \<union> set es) (fold (visit_edge db p depth u k) es st)"
  using assms
proof (induction es arbitrary: dn st)
  case Nil
  then show ?case by simp
next
  case (Cons e es)
  from Cons.prems have e: "e \<in> set (edges_incident db u T)"
    and es: "set es \<subseteq> set (edges_incident db u T)" by auto
  have "inner_inv db p depth T s u k (insert e dn \<union> set es)
          (fold (visit_edge db p depth u k) es (visit_edge db p depth u k e st))"
    by (rule Cons.IH[OF inner_inv_step[OF Cons.prems(1) e] es])
  then show ?case by simp
qed

lemma bfs_inv_expand:
  assumes "bfs_inv db p depth T s st" and "queue st = (u, k) # rest" and "k < depth"
  shows "bfs_inv db p depth T s
           (visit_edges db p depth u k (edges_incident db u T) (st\<lparr>queue := rest\<rparr>))"
proof -
  have "inner_inv db p depth T s u k ({} \<union> set (edges_incident db u T))
          (fold (visit_edge db p depth u k) (edges_incident db u T) (st\<lparr>queue := rest\<rparr>))"
    by (rule inner_inv_fold[OF inner_inv_start[OF assms]]) simp
  then show ?thesis
    by (simp add: visit_edges_def inner_inv_finish)
qed

lemma bfs_loop_inv:
  "bfs_inv db p depth T s st \<Longrightarrow>
     bfs_inv db p depth T s (bfs_loop db p depth T st) \<and> queue (bfs_loop db p depth T st) = []"
proof (induction db p depth T st rule: bfs_loop.induct)
  case (1 db p depth T st)
  show ?case
  proof (cases "queue st")
    case Nil
    then show ?thesis using "1.prems" by (simp add: bfs_loop.simps)
  next
    case (Cons x rest)
    obtain u k where x: "x = (u, k)" by (cases x)
    show ?thesis
    proof (cases "depth \<le> k")
      case True
      have "bfs_inv db p depth T s (st\<lparr>queue := rest\<rparr>)"
        using bfs_inv_pop[OF "1.prems" _ True] Cons x by simp
      from "1.IH"(1)[OF Cons x[symmetric] True this]
      show ?thesis using Cons x True by (simp add: bfs_loop.simps[of db p depth T st])
    next
      case False
      then have lt: "k < depth" by simp
      have "bfs_inv db p depth T s
              (visit_edges db p depth u k (edges_incident db u T) (st\<lparr>queue := rest\<rparr>))"
        using bfs_inv_expand[OF "1.prems" _ lt] Cons x by simp
      from "1.IH"(2)[OF Cons x[symmetric] False this]
      show ?thesis using Cons x False by (simp add: bfs_loop.simps[of db p depth T st])
    qed
  qed
qed

lemma bfs_invD:
  assumes "bfs_inv db p depth T s st"
  shows "\<forall>j v. level s st j v \<longrightarrow> walk db p T s j v \<and> j \<le> depth \<and> v \<in> visited st"
    and "\<forall>j j' v. level s st j v \<longrightarrow> level s st j' v \<longrightarrow> j = j'"
    and "\<forall>j v. level s st j v \<longrightarrow> v \<notin> fst ` set (queue st) \<longrightarrow> j < depth \<longrightarrow>
          (\<forall>w. adjacent db p T v w \<longrightarrow> (\<exists>i \<le> j + 1. level s st i w))"
  using assms by (simp_all add: bfs_inv_def)

lemma bfs_inv_final:
  assumes inv: "bfs_inv db p depth T s st" and q: "queue st = []" and l: "level s st k v"
  shows "walk db p T s k v \<and> k \<le> depth \<and> (\<forall>j. walk db p T s j v \<longrightarrow> k \<le> j)"
proof -
  have a: "level s st j w \<Longrightarrow> walk db p T s j w \<and> j \<le> depth" for j w
    using bfs_invD(1)[OF inv] by blast
  have uniq: "level s st j w \<Longrightarrow> level s st j' w \<Longrightarrow> j = j'" for j j' w
    using bfs_invD(2)[OF inv] by blast
  have c: "level s st j w \<Longrightarrow> j < depth \<Longrightarrow> adjacent db p T w w'
           \<Longrightarrow> \<exists>i \<le> j + 1. level s st i w'" for j w w'
    using bfs_invD(3)[OF inv] by (simp add: q)
  have complete: "walk db p T s j w \<Longrightarrow> j \<le> depth \<Longrightarrow> \<exists>i \<le> j. level s st i w" for j w
  proof (induction rule: walk.induct)
    case walk_start
    show ?case by (simp add: level_def)
  next
    case (walk_step n u w)
    then obtain i where i: "i \<le> n" "level s st i u" by auto
    with walk_step.prems have "i < depth" by simp
    from c[OF i(2) this walk_step.hyps(2)]
    obtain i' where "i' \<le> i + 1" "level s st i' w" by blast
    moreover from this i(1) have "i' \<le> Suc n" by simp
    ultimately show ?case by blast
  qed
  have "k \<le> j" if w: "walk db p T s j v" for j
  proof (cases "j \<le> depth")
    case True
    from complete[OF w True] obtain i where "i \<le> j" "level s st i v" by blast
    with uniq[OF l] show ?thesis by auto
  next
    case False
    with a[OF l] show ?thesis by simp
  qed
  with a[OF l] show ?thesis by blast
qed

lemma get_context_calls:
  "get_context calls_store ''m.py'' ''main'' 1 None = Inr calls_context"
proof -
  have n: "symbol_by_name calls_store ''m.py'' ''main'' = Some main_row"
    by (simp add: symbol_by_name_def calls_store_def main_row_def helper_row_def)
  have i: "symbol_by_id calls_store (Suc 0) = Some main_row" "symbol_by_id calls_store 2 = Some helper_row"
    by (simp_all add: symbol_by_id_def calls_store_def main_row_def helper_row_def)
  have e1: "edges_incident calls_store (Suc 0) {} = [\<lparr>src_id = 1, dst_id = 2, edge_type = ''calls''\<rparr>]"
    and e2: "edges_incident calls_store 2 {} = [\<lparr>src_id = 1, dst_id = 2, edge_type = ''calls''\<rparr>]"
    by (simp_all add: edges_incident_def calls_store_def)
  have b: "bfs_loop calls_store ''m.py'' 1 {}
             \<lparr>visited = {1}, queue = [(1, 0)], edges_seen = {}, edges_acc = [], neighbors_by_depth = []\<rparr>
           = \<lparr>visited = {2, 1}, queue = [],
              edges_seen = {\<lparr>src_id = 1, dst_id = 2, edge_type = ''calls''\<rparr>},
              edges_acc = [\<lparr>ep_type = ''calls'',
                 ep_source = \<lparr>en_id = 1, en_name = Some ''main'', en_repo_path = ''m.py''\<rparr>,
                 ep_target = \<lparr>en_id = 2, en_name = Some ''helper'', en_repo_path = ''m.py''\<rparr>\<rparr>],
              neighbors_by_depth = [(1, [serialize_neighbor helper_row])]\<rparr>"
    by (simp add: bfs_loop.simps visit_edges_def visit_edge_def e1 e2 i serialize_edge_def Let_def
        main_row_def helper_row_def)
  show ?thesis
    using b
    by (simp add: get_context_def n calls_context_def Let_def)
      (simp add: main_row_def helper_row_def serialize_neighbor_def serialize_primary_def)
qed

lemma in_bucket_iff:
  "in_bucket buckets k v = (\<exists>b. (k, b) \<in> set buckets \<and> (\<exists>x \<in> set b. nb_id x = v))"
  by (auto simp: in_bucket_def list_ex_iff)

text \<open>
  Claim C6. When the symbol is found: with a depth of 0 (or less) the context is the
  primary alone, \<open>symbols_returned = 1\<close>, no neighbors and no edges. For a positive
  depth, every symbol listed in the bucket of depth \<open>k\<close> is reached from the primary by a
  walk of \<open>k\<close> steps, \<open>k\<close> is at most the requested depth, and no walk to it is shorter:
  a neighbor sits in the bucket of its shortest distance and nothing farther than the
  requested depth is returned. The walks are those of the traversal: along edges of the
  requested types, in either direction, between symbols of the same file.
\<close>

theorem get_context_shortest_depth:
  assumes "get_context db p symbol_name depth include_types = Inr ctx"
  shows "(depth \<le> 0 \<longrightarrow>
            symbols_returned (stats ctx) = 1 \<and> neighbors ctx = [] \<and> edges_payload ctx = [])
       \<and> (\<forall>k bucket item. (k, bucket) \<in> set (neighbors ctx) \<and> item \<in> set bucket \<longrightarrow>
            int k \<le> depth
            \<and> walk db p (set (filter (\<lambda>t. t \<noteq> [])
                   (case include_types of None \<Rightarrow> [] | Some ts \<Rightarrow> ts)))
                 (pr_id (primary ctx)) k (nb_id item)
            \<and> (\<forall>j. walk db p (set (filter (\<lambda>t. t \<noteq> [])
                        (case include_types of None \<Rightarrow> [] | Some ts \<Rightarrow> ts)))
                      (pr_id (primary ctx)) j (nb_id item) \<longrightarrow> k \<le> j))"
proof -
  let ?T = "set (filter (\<lambda>t. t \<noteq> []) (case include_types of None \<Rightarrow> [] | Some ts \<Rightarrow> ts))"
  from assms obtain symbol where sy: "symbol_by_name db p symbol_name = Some symbol"
    by (auto simp: get_context_def split: option.splits)
  let ?s = "sym_id symbol"
  let ?st0 = "\<lparr>visited = {?s}, queue = [(?s, 0)], edges_seen = {}, edges_acc = [],
               neighbors_by_depth = []\<rparr>"
  let ?st = "bfs_loop db p (nat depth) ?T ?st0"
  show ?thesis
  proof (cases "depth \<le> 0")
    case True
    with assms sy show ?thesis by (auto simp: get_context_def)
  next
    case False
    have inv: "bfs_inv db p (nat depth) ?T ?s ?st" and q: "queue ?st = []"
      using bfs_loop_inv[OF bfs_inv_init, of db p "nat depth" ?T ?s] by simp_all
    have pr: "pr_id (primary ctx) = ?s"
      using assms sy False by (auto simp: get_context_def Let_def serialize_primary_def)
    have nb: "neighbors ctx =
        map (\<lambda>(k, bucket).
              (k, sort_key (\<lambda>item. (or_empty (nb_name item), or_empty (nb_kind item))) bucket))
          (neighbors_by_depth ?st)"
      using assms sy False by (auto simp: get_context_def Let_def)
    have main: "int k \<le> depth \<and> walk db p ?T ?s k (nb_id item)
                \<and> (\<forall>j. walk db p ?T ?s j (nb_id item) \<longrightarrow> k \<le> j)"
      if kb: "(k, bucket) \<in> set (neighbors ctx)" and it: "item \<in> set bucket" for k bucket item
    proof -
      from kb obtain b0 where b0: "(k, b0) \<in> set (neighbors_by_depth ?st)"
          and bk: "bucket = sort_key (\<lambda>item. (or_empty (nb_name item), or_empty (nb_kind item))) b0"
        unfolding nb by auto
      from it bk have "item \<in> set b0" by simp
      with b0 have "in_bucket (neighbors_by_depth ?st) k (nb_id item)"
        unfolding in_bucket_iff by blast
      then have "level ?s ?st k (nb_id item)" by (simp add: level_def)
      from bfs_inv_final[OF inv q this]
      have w: "walk db p ?T ?s k (nb_id item)" and kd: "k \<le> nat depth"
        and mn: "\<forall>j. walk db p ?T ?s j (nb_id item) \<longrightarrow> k \<le> j"
        by blast+
      from kd False have "int k \<le> depth" by linarith
      with w mn show ?thesis by blast
    qed
    show ?thesis
      using False main unfolding pr by blast
  qed
qed

theorem get_context_shortest_depth_witness:
  "get_context calls_store ''m.py'' ''main'' 1 None = Inr calls_context
   \<and> neighbors calls_context = [(1, [serialize_neighbor helper_row])]
   \<and> walk calls_store ''m.py'' {} 1 1 2
   \<and> \<not> walk calls_store ''m.py'' {} 1 0 2"
proof -
  have n: "neighbors calls_context = [(1, [serialize_neighbor helper_row])]"
    by (simp add: calls_context_def)
  have p: "pr_id (primary calls_context) = 1" "nb_id (serialize_neighbor helper_row) = 2"
    by (simp_all add: calls_context_def serialize_primary_def serialize_neighbor_def
        main_row_def helper_row_def)
  from get_context_shortest_depth[OF get_context_calls] n
  have "walk calls_store ''m.py'' {} (pr_id (primary calls_context)) 1
          (nb_id (serialize_neighbor helper_row))
        \<and> (\<forall>j. walk calls_store ''m.py'' {} (pr_id (primary calls_context)) j
                 (nb_id (serialize_neighbor helper_row)) \<longrightarrow> 1 \<le> j)"
    by simp
  then have "walk calls_store ''m.py'' {} 1 1 2"
    and "\<not> walk calls_store ''m.py'' {} 1 0 2"
    unfolding p by (blast, fastforce)
  with get_context_calls n show ?thesis by simp
qed

end
